theory Spec2Isabelle
  imports Main "HOL-Library.Sublist"
begin

section \<open>ByeSky: the fetch, filter, back up and delete pipeline of byesky.py\<close>

text \<open>
  The development embeds \<^verbatim>\<open>process_posts\<close> and the token handling of \<^verbatim>\<open>cli\<close>.
  Python exceptions are values of \<open>exn\<close>; a computation that may raise returns
  \<open>exn + 'a\<close> with \<open>Inl\<close> the exception. Every call that leaves the process (the
  BlueSky client, the file system, the warning log) is recorded as an event, so that the
  order of effects can be stated. The answers of the outside world are the fields of the
  record \<open>env\<close>. A Python \<^verbatim>\<open>str\<close> is a \<open>string\<close>, each \<open>char\<close> a code point
  below 256.
\<close>

subsection \<open>Python values\<close>

datatype exn =
    ValueError | AttributeError | OverflowError | OSError | ReError | RequestError

text \<open>
  The objects the feed hands over for \<^verbatim>\<open>post.reply\<close> and \<^verbatim>\<open>post.embed\<close>:
  \<^verbatim>\<open>None\<close>, a string, an object with named attributes, or a \<^verbatim>\<open>dict\<close>.
\<close>

datatype pyval =
    PyNone
  | PyStr string
  | PyObject "(string \<times> pyval) list"
  | PyDict "(string \<times> pyval) list"

text \<open>
  Truth value of an object in a condition (\<^verbatim>\<open>if embed and ...\<close>); an object that is
  neither \<^verbatim>\<open>None\<close>, a string nor a dict counts as true.
\<close>

fun truthy :: "pyval \<Rightarrow> bool" where
  "truthy PyNone = False"
| "truthy (PyStr s) = (s \<noteq> [])"
| "truthy (PyObject attrs) = True"
| "truthy (PyDict items) = (items \<noteq> [])"

fun hasattr :: "pyval \<Rightarrow> string \<Rightarrow> bool" where
  "hasattr (PyObject attrs) name = (map_of attrs name \<noteq> None)"
| "hasattr v name = False"

text \<open>Attribute access \<^verbatim>\<open>obj.name\<close>: raises AttributeError when the attribute is missing.\<close>

fun getattr :: "pyval \<Rightarrow> string \<Rightarrow> exn + pyval" where
  "getattr (PyObject attrs) name =
     (case map_of attrs name of None \<Rightarrow> Inl AttributeError | Some v \<Rightarrow> Inr v)"
| "getattr v name = Inl AttributeError"

fun isinstance_dict :: "pyval \<Rightarrow> bool" where
  "isinstance_dict (PyDict items) = True"
| "isinstance_dict v = False"

text \<open>\<^verbatim>\<open>d.get(key)\<close>, only called on a dict.\<close>

fun dict_get :: "pyval \<Rightarrow> string \<Rightarrow> pyval" where
  "dict_get (PyDict items) key = (case map_of items key of None \<Rightarrow> PyNone | Some v \<Rightarrow> v)"
| "dict_get v key = PyNone"

text \<open>\<^verbatim>\<open>getattr(obj, name, None)\<close> on a post: a missing attribute reads as \<^verbatim>\<open>None\<close>.\<close>

definition getattr_or_none :: "pyval option \<Rightarrow> pyval" where
  "getattr_or_none a = (case a of None \<Rightarrow> PyNone | Some v \<Rightarrow> v)"

text \<open>Truth value of an optional string (\<^verbatim>\<open>if after\<close>, \<^verbatim>\<open>if not token\<close>, \<^verbatim>\<open>if not cursor\<close>).\<close>

definition str_truthy :: "string option \<Rightarrow> bool" where
  "str_truthy s = (case s of None \<Rightarrow> False | Some x \<Rightarrow> x \<noteq> [])"

text \<open>\<^verbatim>\<open>needle in haystack\<close> on strings.\<close>

fun str_contains :: "string \<Rightarrow> string \<Rightarrow> bool" where
  "str_contains [] needle = (needle = [])"
| "str_contains (c # cs) needle = (prefix needle (c # cs) \<or> str_contains cs needle)"

text \<open>\<^verbatim>\<open>s.split(sep)\<close> for a one-character separator; the result is never empty.\<close>

fun split_on :: "char \<Rightarrow> string \<Rightarrow> string list" where
  "split_on sep [] = [[]]"
| "split_on sep (c # cs) =
     (if c = sep then [] # split_on sep cs
      else (case split_on sep cs of [] \<Rightarrow> [[c]] | w # ws \<Rightarrow> (c # w) # ws))"

text \<open>\<^verbatim>\<open>s.replace("\n", " ")\<close>.\<close>

definition replace_newlines :: "string \<Rightarrow> string" where
  "replace_newlines s = map (\<lambda>c. if c = CHR 0x0A then CHR '' '' else c) s"

text \<open>
  \<^verbatim>\<open>s.strip()\<close>: it removes the characters for which \<^verbatim>\<open>str.isspace\<close> holds; below
  256 these are 0x09 to 0x0D, 0x1C to 0x1F, the space, 0x85 and 0xA0.
\<close>

definition is_space :: "char \<Rightarrow> bool" where
  "is_space c =
     (c \<in> set [CHR 0x09, CHR 0x0A, CHR 0x0B, CHR 0x0C, CHR 0x0D,
                CHR 0x1C, CHR 0x1D, CHR 0x1E, CHR 0x1F, CHR '' '', CHR 0x85, CHR 0xA0])"

definition strip :: "string \<Rightarrow> string" where
  "strip s = rev (dropWhile is_space (rev (dropWhile is_space s)))"

subsection \<open>Dates and times\<close>

text \<open>
  A \<^verbatim>\<open>datetime\<close> as the parser returns it: the wall-clock reading in microseconds
  since 0001-01-01T00:00:00, and the UTC offset of its \<^verbatim>\<open>tzinfo\<close> in microseconds,
  \<open>None\<close> for a naive value. A timestamp that has been brought to UTC is the \<open>int\<close> of
  its microseconds, and comparing two of them compares those.
\<close>

record datetime =
  wall :: int
  utcoffset :: "int option"

text \<open>\<^verbatim>\<open>datetime.max\<close>, 9999-12-31T23:59:59.999999; \<^verbatim>\<open>datetime.min\<close> is 0.\<close>

definition dt_max :: int where
  "dt_max = 315537897599999999"

definition usec_per_day :: int where
  "usec_per_day = 86400000000"

subsection \<open>Feed data\<close>

text \<open>
  \<^verbatim>\<open>item.post\<close> of a feed item: \<open>record_text\<close> is the \<^verbatim>\<open>"text"\<close> key of
  \<^verbatim>\<open>post.record.dict()\<close> (\<open>None\<close> when the key is absent), \<open>reply\<close> and \<open>embed\<close>
  are \<open>None\<close> when the attribute is absent. The whole value stands for
  \<^verbatim>\<open>post.dict()\<close> in a backup entry.
\<close>

record post_view =
  uri :: string
  indexed_at :: string
  record_text :: "string option"
  reply :: "pyval option"
  embed :: "pyval option"

record feed_response =
  feed :: "post_view list"
  cursor :: "string option"

subsection \<open>The outside world\<close>

text \<open>
  \<open>now_utc\<close> is \<^verbatim>\<open>datetime.now(timezone.utc)\<close>; \<open>local_utcoffset u\<close> is the UTC offset
  of the system's local time zone at the instant \<open>u\<close> (microseconds UTC), a whole number
  of seconds; \<open>dateutil_isoparse\<close> and \<open>dateutil_parse\<close> are the two parsers; \<open>re_error\<close>
  tells whether \<^verbatim>\<open>re.compile\<close> rejects a pattern, and \<open>re_search src ic s\<close> is
  \<^verbatim>\<open>search\<close> in \<open>s\<close> of the pattern with source \<open>src\<close>, compiled with
  \<^verbatim>\<open>re.IGNORECASE\<close> when \<open>ic\<close> holds; \<open>str_lower\<close> is \<^verbatim>\<open>str.lower\<close>. The run is
  sequential, so the answers of the service and of the file system are indexed by the
  number of effects the run has performed before: \<open>get_author_feed t actor cursor limit\<close>
  is the answer to a feed request issued as effect number \<open>t\<close>, and \<open>io_error t\<close> is the
  exception, if any, raised by a login, delete, open, write or close issued as effect
  number \<open>t\<close>. A file opened by \<^verbatim>\<open>open(path, "a", encoding="utf-8")\<close> is block-buffered:
  a write that returns has put its line into the buffer of the handle, and
  \<open>write_through t\<close> tells whether the write issued as effect number \<open>t\<close> fills the buffer,
  so that the buffer is written to the file before the write returns.
\<close>

record env =
  now_utc :: int
  local_utcoffset :: "int \<Rightarrow> int"
  dateutil_isoparse :: "string \<Rightarrow> exn + datetime"
  dateutil_parse :: "string \<Rightarrow> exn + datetime"
  re_error :: "string \<Rightarrow> exn option"
  re_search :: "string \<Rightarrow> bool \<Rightarrow> string \<Rightarrow> bool"
  str_lower :: "string \<Rightarrow> string"
  get_author_feed :: "nat \<Rightarrow> string \<Rightarrow> string option \<Rightarrow> nat \<Rightarrow> exn + feed_response"
  io_error :: "nat \<Rightarrow> exn option"
  write_through :: "nat \<Rightarrow> bool"

text \<open>
  The reading of the local clock at the instant \<open>u\<close>. CPython builds it from
  \<^verbatim>\<open>localtime\<close> and raises ValueError when its year is not within 1 to 9999.
\<close>

definition local_time :: "env \<Rightarrow> int \<Rightarrow> exn + int" where
  "local_time e u =
     (let lt = u + local_utcoffset e u
      in if 0 \<le> lt \<and> lt \<le> dt_max then Inr lt else Inl ValueError)"

text \<open>
  The instant at which the local clock reads \<open>t\<close>, as CPython finds it for a naive value
  (with \<^verbatim>\<open>fold = 0\<close>): it takes the offset \<open>a\<close> in force at \<open>t\<close> read as an instant,
  tries \<open>t - a\<close>, looks one day earlier for a second offset \<open>b\<close>, and tries \<open>t - b\<close>.
  Each of the clock readings on the way may raise.
\<close>

definition local_to_utc :: "env \<Rightarrow> int \<Rightarrow> exn + int" where
  "local_to_utc e t =
     (case local_time e t of
        Inl err \<Rightarrow> Inl err
      | Inr lt \<Rightarrow>
          (let a = lt - t; u1 = t - a
           in case local_time e u1 of
                Inl err \<Rightarrow> Inl err
              | Inr t1 \<Rightarrow>
                  (case (if t1 = t then
                           (case local_time e (u1 - usec_per_day) of
                              Inl err \<Rightarrow> Inl err
                            | Inr lt' \<Rightarrow> Inr (lt' - (u1 - usec_per_day)))
                         else Inr (t1 - u1)) of
                     Inl err \<Rightarrow> Inl err
                   | Inr b \<Rightarrow>
                       if t1 = t \<and> a = b then Inr u1
                       else (let u2 = t - b
                             in case local_time e u2 of
                                  Inl err \<Rightarrow> Inl err
                                | Inr t2 \<Rightarrow>
                                    if t2 = t then Inr u2
                                    else if t1 = t then Inr u1
                                    else Inr (max u1 u2)))))"

text \<open>\<^verbatim>\<open>dt - offset\<close>: OverflowError outside \<^verbatim>\<open>datetime.min .. datetime.max\<close>.\<close>

definition minus_offset :: "int \<Rightarrow> int \<Rightarrow> exn + int" where
  "minus_offset w k = (let u = w - k in if 0 \<le> u \<and> u \<le> dt_max then Inr u else Inl OverflowError)"

text \<open>
  \<^verbatim>\<open>dt.astimezone(timezone.utc)\<close>. An aware value is shifted by its own offset. Since
  Python 3.6 (the source needs it for its f-strings) a naive value is presumed to be
  system local time: the local zone's offset at the instant found by \<open>local_to_utc\<close> is
  attached, and the value is shifted by it.
\<close>

definition astimezone_utc :: "env \<Rightarrow> datetime \<Rightarrow> exn + int" where
  "astimezone_utc e d =
     (case utcoffset d of
        Some k \<Rightarrow> minus_offset (wall d) k
      | None \<Rightarrow>
          (case local_to_utc e (wall d) of
             Inl err \<Rightarrow> Inl err
           | Inr u \<Rightarrow> minus_offset (wall d) (local_utcoffset e u)))"

text \<open>\<^verbatim>\<open>dt.replace(tzinfo=timezone.utc)\<close>: the reading is kept and declared UTC.\<close>

definition replace_tzinfo_utc :: "datetime \<Rightarrow> int" where
  "replace_tzinfo_utc d = wall d"

text \<open>Lines 91 to 94: the \<^verbatim>\<open>try\<close> around \<^verbatim>\<open>astimezone\<close> with its fallback.\<close>

definition normalize_indexed_at :: "env \<Rightarrow> datetime \<Rightarrow> exn + int" where
  "normalize_indexed_at e pt =
     (case astimezone_utc e pt of
        Inr u \<Rightarrow> Inr u
      | Inl err \<Rightarrow> Inr (replace_tzinfo_utc pt))"

text \<open>Line 61: \<^verbatim>\<open>datetime.now(timezone.utc) - timedelta(days=days_old)\<close>.\<close>

definition cutoff_of :: "env \<Rightarrow> int \<Rightarrow> exn + int" where
  "cutoff_of e days =
     (if \<bar>days\<bar> > 999999999 then Inl OverflowError
      else (let c = now_utc e - days * usec_per_day
            in if 0 \<le> c \<and> c \<le> dt_max then Inr c else Inl OverflowError))"

text \<open>Lines 64 and 65: \<^verbatim>\<open>parser.parse(s).astimezone(timezone.utc) if s else None\<close>.\<close>

definition parse_bound :: "env \<Rightarrow> string option \<Rightarrow> exn + int option" where
  "parse_bound e s =
     (case s of
        None \<Rightarrow> Inr None
      | Some x \<Rightarrow>
          if x = [] then Inr None
          else (case dateutil_parse e x of
                  Inl err \<Rightarrow> Inl err
                | Inr d \<Rightarrow>
                    (case astimezone_utc e d of
                       Inl err \<Rightarrow> Inl err
                     | Inr u \<Rightarrow> Inr (Some u))))"

text \<open>
  An element of \<^verbatim>\<open>compiled_patterns\<close>: a pattern string as given, or a compiled pattern
  with its source and whether it was compiled with \<^verbatim>\<open>re.IGNORECASE\<close>.
\<close>

datatype matcher = Keyword string | Regex string bool

text \<open>Lines 71 to 76; line 74 compiles each pattern with \<^verbatim>\<open>re.IGNORECASE\<close>.\<close>

fun compile_all :: "env \<Rightarrow> string list \<Rightarrow> exn + matcher list" where
  "compile_all e [] = Inr []"
| "compile_all e (p # ps) =
     (case re_error e p of
        Some err \<Rightarrow> Inl err
      | None \<Rightarrow>
          (case compile_all e ps of Inl err \<Rightarrow> Inl err | Inr cs \<Rightarrow> Inr (Regex p True # cs)))"

definition prepare_matchers :: "env \<Rightarrow> string list \<Rightarrow> bool \<Rightarrow> exn + matcher list" where
  "prepare_matchers e match_patterns use_regex =
     (if match_patterns \<noteq> [] then
        (if use_regex then compile_all e match_patterns else Inr (map Keyword match_patterns))
      else Inr [])"

subsection \<open>The filter of one feed item (lines 90 to 126)\<close>

text \<open>The parameters of \<^verbatim>\<open>process_posts\<close>; an absent pattern list is the empty one.\<close>

record params =
  handle :: string
  token :: string
  days_old :: int
  preview_only :: bool
  log_file :: "string option"
  match_patterns :: "string list"
  use_regex :: bool
  after :: "string option"
  before :: "string option"
  backup_file :: "string option"
  include_replies :: bool
  include_reposts :: bool
  quiet :: bool

text \<open>What the run has computed from its arguments before the first page is fetched.\<close>

record criteria =
  cutoff :: int
  after_dt :: "int option"
  before_dt :: "int option"
  compiled_patterns :: "matcher list"

definition repost_view_type :: string where
  "repost_view_type = ''app.bsky.embed.record#view''"

text \<open>Line 101.\<close>

definition is_reply_of :: "post_view \<Rightarrow> bool" where
  "is_reply_of p = (getattr_or_none (reply p) \<noteq> PyNone)"

text \<open>Lines 103 to 108.\<close>

definition is_repost_of :: "post_view \<Rightarrow> exn + bool" where
  "is_repost_of p =
     (let em = getattr_or_none (embed p)
      in if truthy em \<and> hasattr em ''$type'' then
           (case getattr em ''type'' of
              Inl err \<Rightarrow> Inl err
            | Inr v \<Rightarrow> Inr (v = PyStr repost_view_type))
         else if truthy em \<and> isinstance_dict em then
           Inr (dict_get em ''$type'' = PyStr repost_view_type)
         else Inr False)"

text \<open>Lines 95 and 96 (and 159, 160): \<^verbatim>\<open>post.record.dict().get("text", "")\<close>.\<close>

definition post_text :: "post_view \<Rightarrow> string" where
  "post_text p = (case record_text p of None \<Rightarrow> [] | Some s \<Rightarrow> s)"

text \<open>Lines 114 to 118.\<close>

definition in_range :: "criteria \<Rightarrow> int \<Rightarrow> bool" where
  "in_range c pt =
     (let r1 = (case after_dt c of Some a \<Rightarrow> if pt < a then False else True | None \<Rightarrow> True);
          r2 = (case before_dt c of Some b \<Rightarrow> if pt > b then False else r1 | None \<Rightarrow> r1)
      in r2)"

text \<open>
  Line 122, \<^verbatim>\<open>any(p.search(text) for p in compiled_patterns)\<close>, and line 124,
  \<^verbatim>\<open>any(p.lower() in text.lower() for p in compiled_patterns)\<close>. A string has no
  \<^verbatim>\<open>search\<close> and a compiled pattern no \<^verbatim>\<open>lower\<close>.
\<close>

fun any_search :: "env \<Rightarrow> matcher list \<Rightarrow> string \<Rightarrow> exn + bool" where
  "any_search e [] text = Inr False"
| "any_search e (Regex src ic # ms) text =
     (if re_search e src ic text then Inr True else any_search e ms text)"
| "any_search e (Keyword k # ms) text = Inl AttributeError"

fun any_keyword :: "env \<Rightarrow> matcher list \<Rightarrow> string \<Rightarrow> exn + bool" where
  "any_keyword e [] text = Inr False"
| "any_keyword e (Keyword k # ms) text =
     (if str_contains (str_lower e text) (str_lower e k) then Inr True
      else any_keyword e ms text)"
| "any_keyword e (Regex src ic # ms) text = Inl AttributeError"

text \<open>Lines 119 to 124.\<close>

definition matched_text :: "env \<Rightarrow> params \<Rightarrow> criteria \<Rightarrow> string \<Rightarrow> exn + bool" where
  "matched_text e a c text =
     (if compiled_patterns c \<noteq> [] then
        (if use_regex a then any_search e (compiled_patterns c) text
         else any_keyword e (compiled_patterns c) text)
      else Inr True)"

text \<open>
  The body of the \<^verbatim>\<open>for item in feed.feed\<close> loop: the list \<open>posts\<close> with the item
  appended when it is selected, or the exception that leaves the loop.
\<close>

definition scan_item ::
  "env \<Rightarrow> params \<Rightarrow> criteria \<Rightarrow> (string \<times> post_view \<times> int) list \<Rightarrow> post_view
     \<Rightarrow> exn + (string \<times> post_view \<times> int) list" where
  "scan_item e a c posts p =
     (case dateutil_isoparse e (indexed_at p) of
        Inl err \<Rightarrow> Inl err
      | Inr d \<Rightarrow>
          (case normalize_indexed_at e d of
             Inl err \<Rightarrow> Inl err
           | Inr pt \<Rightarrow>
               (let text = post_text p
                in if pt < cutoff c then
                     (let is_reply = is_reply_of p
                      in case is_repost_of p of
                           Inl err \<Rightarrow> Inl err
                         | Inr is_repost \<Rightarrow>
                             if (is_reply \<and> \<not> include_replies a)
                                \<or> (is_repost \<and> \<not> include_reposts a)
                             then Inr posts
                             else (case matched_text e a c text of
                                     Inl err \<Rightarrow> Inl err
                                   | Inr is_matched \<Rightarrow>
                                       if in_range c pt \<and> is_matched
                                       then Inr (posts @ [(uri p, p, pt)])
                                       else Inr posts))
                   else Inr posts)))"

fun scan_items ::
  "env \<Rightarrow> params \<Rightarrow> criteria \<Rightarrow> (string \<times> post_view \<times> int) list \<Rightarrow> post_view list
     \<Rightarrow> exn + (string \<times> post_view \<times> int) list" where
  "scan_items e a c posts [] = Inr posts"
| "scan_items e a c posts (p # ps) =
     (case scan_item e a c posts p of
        Inl err \<Rightarrow> Inl err
      | Inr posts' \<Rightarrow> scan_items e a c posts' ps)"

subsection \<open>Effects\<close>

datatype fh = LogFh | BackupFh

record backup_entry =
  be_uri :: string
  be_datetime :: int
  be_post :: post_view

text \<open>
  The calls that leave the process: \<^verbatim>\<open>client.login(handle, token)\<close>, the feed request
  with its actor, cursor and limit, the delete request with its repo, collection and
  record key, \<^verbatim>\<open>open(path, "a")\<close>, the write of one log record (time and one-line
  text) or of one backup line, \<^verbatim>\<open>close\<close>, and the warning for a failed deletion.
\<close>

datatype op =
    ClientLogin string string
  | GetAuthorFeed string "string option" nat
  | DeleteRecord string string string
  | OpenAppend fh string
  | WriteLog int string
  | WriteBackup backup_entry
  | Close fh
  | LogWarning string

datatype event = Done op | Failed op exn

text \<open>
  An action takes the number of effects performed so far and returns the events it adds
  and its result. \<open>perform\<close> is a call that returns nothing.
\<close>

definition perform :: "env \<Rightarrow> op \<Rightarrow> nat \<Rightarrow> event list \<times> (exn + unit)" where
  "perform e x t =
     (case io_error e t of
        None \<Rightarrow> ([Done x], Inr ())
      | Some err \<Rightarrow> ([Failed x err], Inl err))"

definition call_get_author_feed ::
  "env \<Rightarrow> string \<Rightarrow> string option \<Rightarrow> nat \<Rightarrow> nat \<Rightarrow> event list \<times> (exn + feed_response)" where
  "call_get_author_feed e actor cur limit t =
     (case get_author_feed e t actor cur limit of
        Inl err \<Rightarrow> ([Failed (GetAuthorFeed actor cur limit) err], Inl err)
      | Inr r \<Rightarrow> ([Done (GetAuthorFeed actor cur limit)], Inr r))"

text \<open>
  The decorator of lines 28 to 33: any exception is retried, the last one is raised again
  when the attempts are used up. \<open>retrying k\<close> allows \<open>k\<close> further attempts after the
  first; \<^verbatim>\<open>stop_after_attempt(3)\<close> is \<open>retrying 2\<close>. The waits between attempts change
  no value and are left out.
\<close>

primrec retrying ::
  "nat \<Rightarrow> (nat \<Rightarrow> event list \<times> (exn + 'a)) \<Rightarrow> nat \<Rightarrow> event list \<times> (exn + 'a)" where
  "retrying 0 f t = f t"
| "retrying (Suc k) f t =
     (case f t of
        (evs, Inr v) \<Rightarrow> (evs, Inr v)
      | (evs, Inl err) \<Rightarrow>
          (case retrying k f (t + length evs) of (evs', r) \<Rightarrow> (evs @ evs', r)))"

definition retry_on_network ::
  "(nat \<Rightarrow> event list \<times> (exn + 'a)) \<Rightarrow> nat \<Rightarrow> event list \<times> (exn + 'a)" where
  "retry_on_network f = retrying 2 f"

definition fetch_feed_page ::
  "env \<Rightarrow> string \<Rightarrow> string option \<Rightarrow> nat \<Rightarrow> nat \<Rightarrow> event list \<times> (exn + feed_response)" where
  "fetch_feed_page e actor cur limit = retry_on_network (call_get_author_feed e actor cur limit)"

definition rkey_of :: "string \<Rightarrow> string" where
  "rkey_of u = last (split_on (CHR ''/'') u)"

definition delete_record :: "env \<Rightarrow> string \<Rightarrow> string \<Rightarrow> nat \<Rightarrow> event list \<times> (exn + unit)" where
  "delete_record e hdl u =
     retry_on_network (perform e (DeleteRecord hdl ''app.bsky.feed.post'' (rkey_of u)))"

subsection \<open>The progress bar of the page loop\<close>

text \<open>
  \<^verbatim>\<open>tqdm(desc=..., unit=..., disable=...)\<close> without an iterable: the counter \<^verbatim>\<open>n\<close>
  starts at 0, and \<^verbatim>\<open>update()\<close> returns at once when the bar is disabled, adding 1
  to \<^verbatim>\<open>n\<close> otherwise. The bar of the post loop is read nowhere and is left out.
\<close>

record tqdm =
  bar_n :: nat
  bar_disable :: bool

definition tqdm_init :: "bool \<Rightarrow> tqdm" where
  "tqdm_init dis = \<lparr>bar_n = 0, bar_disable = dis\<rparr>"

definition tqdm_update :: "tqdm \<Rightarrow> tqdm" where
  "tqdm_update b = (if bar_disable b then b else b\<lparr>bar_n := bar_n b + 1\<rparr>)"

subsection \<open>Pagination (lines 86 to 130)\<close>

text \<open>
  The \<^verbatim>\<open>while True\<close> loop runs as long as the service returns a cursor, so it is given
  fuel: \<open>None\<close> is a run that has not left the loop within \<open>fuel\<close> pages.
\<close>

fun paginate ::
  "nat \<Rightarrow> env \<Rightarrow> params \<Rightarrow> criteria \<Rightarrow> string option \<Rightarrow> (string \<times> post_view \<times> int) list
     \<Rightarrow> tqdm \<Rightarrow> nat
     \<Rightarrow> (event list \<times> (exn + (string \<times> post_view \<times> int) list \<times> tqdm)) option" where
  "paginate 0 e a c cur posts page_bar t = None"
| "paginate (Suc fuel) e a c cur posts page_bar t =
     (case fetch_feed_page e (handle a) cur 50 t of
        (evs, Inl err) \<Rightarrow> Some (evs, Inl err)
      | (evs, Inr fd) \<Rightarrow>
          (case scan_items e a c posts (feed fd) of
             Inl err \<Rightarrow> Some (evs, Inl err)
           | Inr posts' \<Rightarrow>
               (let cur' = cursor fd; page_bar' = tqdm_update page_bar
                in if \<not> str_truthy cur' then Some (evs, Inr (posts', page_bar'))
                   else (case paginate fuel e a c cur' posts' page_bar' (t + length evs) of
                           None \<Rightarrow> None
                         | Some (evs', r) \<Rightarrow> Some (evs @ evs', r)))))"

text \<open>Lines 59 to 130: login, the criteria, then the page loop.\<close>

definition scan_phase ::
  "nat \<Rightarrow> env \<Rightarrow> params \<Rightarrow> nat
     \<Rightarrow> (event list \<times> (exn + (string \<times> post_view \<times> int) list \<times> tqdm)) option" where
  "scan_phase fuel e a t =
     (case perform e (ClientLogin (handle a) (token a)) t of
        (evs, Inl err) \<Rightarrow> Some (evs, Inl err)
      | (evs, Inr u) \<Rightarrow>
          (case cutoff_of e (days_old a) of
             Inl err \<Rightarrow> Some (evs, Inl err)
           | Inr co \<Rightarrow>
               (case parse_bound e (after a) of
                  Inl err \<Rightarrow> Some (evs, Inl err)
                | Inr adt \<Rightarrow>
                    (case parse_bound e (before a) of
                       Inl err \<Rightarrow> Some (evs, Inl err)
                     | Inr bdt \<Rightarrow>
                         (case prepare_matchers e (match_patterns a) (use_regex a) of
                            Inl err \<Rightarrow> Some (evs, Inl err)
                          | Inr pats \<Rightarrow>
                              (case paginate fuel e a
                                      \<lparr>cutoff = co, after_dt = adt, before_dt = bdt,
                                       compiled_patterns = pats\<rparr>
                                      None [] (tqdm_init (quiet a)) (t + length evs) of
                                 None \<Rightarrow> None
                               | Some (evs', r) \<Rightarrow> Some (evs @ evs', r)))))))"

subsection \<open>Logging, backup and deletion (lines 132 to 185)\<close>

record run_result =
  scanned :: nat
  matched :: nat
  deleted :: nat
  failed :: nat

text \<open>Lines 159 to 162: the record appended to the log file, its time and its text.\<close>

definition log_record_of :: "string \<times> post_view \<times> int \<Rightarrow> int \<times> string" where
  "log_record_of x =
     (case x of (u, post, pt) \<Rightarrow>
        (pt, replace_newlines (post_text post)))"

text \<open>
  Lines 165 to 169: the backup line, with \<open>be_datetime\<close> the time that
  \<^verbatim>\<open>pt.isoformat()\<close> prints and \<open>be_post\<close> the payload \<^verbatim>\<open>post.dict()\<close>.
\<close>

definition backup_entry_of :: "string \<times> post_view \<times> int \<Rightarrow> backup_entry" where
  "backup_entry_of x =
     (case x of (u, post, pt) \<Rightarrow> \<lparr>be_uri = u, be_datetime = pt, be_post = post\<rparr>)"

text \<open>The \<^verbatim>\<open>for uri, post, pt in post_bar\<close> loop, lines 158 to 176.\<close>

fun process_loop ::
  "env \<Rightarrow> params \<Rightarrow> (string \<times> post_view \<times> int) list \<Rightarrow> nat \<Rightarrow> nat \<Rightarrow> nat
     \<Rightarrow> event list \<times> (exn + nat \<times> nat)" where
  "process_loop e a [] n_deleted n_failed t = ([], Inr (n_deleted, n_failed))"
| "process_loop e a (x # rest) n_deleted n_failed t =
     (case perform e (WriteLog (fst (log_record_of x)) (snd (log_record_of x))) t of
        (evs1, Inl err) \<Rightarrow> (evs1, Inl err)
      | (evs1, Inr u1) \<Rightarrow>
          if \<not> preview_only a then
            (case perform e (WriteBackup (backup_entry_of x)) (t + length evs1) of
               (evs2, Inl err) \<Rightarrow> (evs1 @ evs2, Inl err)
             | (evs2, Inr u2) \<Rightarrow>
                 (case delete_record e (handle a) (fst x) (t + length evs1 + length evs2) of
                    (evs3, Inr u3) \<Rightarrow>
                      (case process_loop e a rest (n_deleted + 1) n_failed
                              (t + length evs1 + length evs2 + length evs3) of
                         (evs4, r) \<Rightarrow> (evs1 @ evs2 @ evs3 @ evs4, r))
                  | (evs3, Inl err) \<Rightarrow>
                      (case process_loop e a rest n_deleted (n_failed + 1)
                              (t + length evs1 + length evs2 + length evs3 + 1) of
                         (evs4, r) \<Rightarrow>
                           (evs1 @ evs2 @ evs3 @ [Done (LogWarning (fst x))] @ evs4, r))))
          else
            (case process_loop e a rest n_deleted n_failed (t + length evs1) of
               (evs4, r) \<Rightarrow> (evs1 @ evs4, r)))"

text \<open>
  Lines 132 to 185. The log file is opened by a \<^verbatim>\<open>with\<close> statement, which closes it
  on every way out of its block; the backup file is opened by a plain \<^verbatim>\<open>open\<close> before
  the block and closed by the statement after it. A close writes the buffer of the handle
  to the file and may raise; the exception of a close of the log file replaces the one
  that left the block.
\<close>

definition output_phase ::
  "env \<Rightarrow> params \<Rightarrow> (string \<times> post_view \<times> int) list \<Rightarrow> tqdm \<Rightarrow> nat
     \<Rightarrow> event list \<times> (exn + run_result)" where
  "output_phase e a posts page_bar t =
     (let total = length posts
      in if total = 0 then
           ([], Inr \<lparr>scanned = bar_n page_bar * 50, matched = 0, deleted = 0, failed = 0\<rparr>)
         else
           (let log_path =
                  (case log_file a of
                     Some s \<Rightarrow> if s \<noteq> [] then s
                       else if preview_only a then ''preview_log.txt''
                       else ''deleted_posts_log.txt''
                   | None \<Rightarrow> if preview_only a then ''preview_log.txt''
                       else ''deleted_posts_log.txt'');
                backup_path =
                  (case backup_file a of
                     Some s \<Rightarrow> if s \<noteq> [] then s else ''deleted_posts_backup.jsonl''
                   | None \<Rightarrow> ''deleted_posts_backup.jsonl'')
            in case (if \<not> preview_only a then perform e (OpenAppend BackupFh backup_path) t
                     else ([], Inr ())) of
                 (evs1, Inl err) \<Rightarrow> (evs1, Inl err)
               | (evs1, Inr u1) \<Rightarrow>
                   (case perform e (OpenAppend LogFh log_path) (t + length evs1) of
                      (evs2, Inl err) \<Rightarrow> (evs1 @ evs2, Inl err)
                    | (evs2, Inr u2) \<Rightarrow>
                        (case process_loop e a posts 0 0 (t + length evs1 + length evs2) of
                           (evs3, r3) \<Rightarrow>
                             (case perform e (Close LogFh)
                                     (t + length evs1 + length evs2 + length evs3) of
                                (evs4, Inl err) \<Rightarrow> (evs1 @ evs2 @ evs3 @ evs4, Inl err)
                              | (evs4, Inr u4) \<Rightarrow>
                                  (case r3 of
                                     Inl err \<Rightarrow> (evs1 @ evs2 @ evs3 @ evs4, Inl err)
                                   | Inr (n_deleted, n_failed) \<Rightarrow>
                                       (case (if \<not> preview_only a then
                                                perform e (Close BackupFh)
                                                  (t + length evs1 + length evs2
                                                     + length evs3 + length evs4)
                                              else ([], Inr ())) of
                                          (evs5, Inl err) \<Rightarrow>
                                            (evs1 @ evs2 @ evs3 @ evs4 @ evs5, Inl err)
                                        | (evs5, Inr u5) \<Rightarrow>
                                            (evs1 @ evs2 @ evs3 @ evs4 @ evs5,
                                             Inr \<lparr>scanned = bar_n page_bar * 50,
                                                  matched = total, deleted = n_deleted,
                                                  failed = n_failed\<rparr>))))))))"

text \<open>\<^verbatim>\<open>process_posts\<close>, started with no effect performed yet.\<close>

definition process_posts ::
  "nat \<Rightarrow> env \<Rightarrow> params \<Rightarrow> (event list \<times> (exn + run_result)) option" where
  "process_posts fuel e a =
     (case scan_phase fuel e a 0 of
        None \<Rightarrow> None
      | Some (evs, Inl err) \<Rightarrow> Some (evs, Inl err)
      | Some (evs, Inr (posts, page_bar)) \<Rightarrow>
          (case output_phase e a posts page_bar (length evs) of
             (evs', r) \<Rightarrow> Some (evs @ evs', r)))"

subsection \<open>The app password in \<^verbatim>\<open>cli\<close> (lines 231 to 244)\<close>

text \<open>
  \<open>tok\<close> is the value of \<^verbatim>\<open>--token\<close> (\<open>None\<close> when the flag is not given), \<open>environ\<close> is
  \<^verbatim>\<open>os.environ\<close>, \<open>typed\<close> is what the user types at the \<^verbatim>\<open>getpass\<close> prompt.
\<close>

definition resolve_token :: "string option \<Rightarrow> (string \<rightharpoonup> string) \<Rightarrow> string \<Rightarrow> string" where
  "resolve_token tok environ typed =
     (case (if \<not> str_truthy tok then environ ''BYESKY_TOKEN'' else tok) of
        None \<Rightarrow> strip typed
      | Some s \<Rightarrow> if s = [] then strip typed else s)"

text \<open>
  \<^verbatim>\<open>cli\<close> from the token on: the run with the resolved password, then the exit status
  (1 when a deletion failed).
\<close>

definition cli ::
  "nat \<Rightarrow> env \<Rightarrow> (string \<rightharpoonup> string) \<Rightarrow> string \<Rightarrow> string option \<Rightarrow> params
     \<Rightarrow> (event list \<times> (exn + nat)) option" where
  "cli fuel e environ typed tok a =
     (case process_posts fuel e (a\<lparr>token := resolve_token tok environ typed\<rparr>) of
        None \<Rightarrow> None
      | Some (evs, Inl err) \<Rightarrow> Some (evs, Inl err)
      | Some (evs, Inr result) \<Rightarrow> Some (evs, Inr (if failed result > 0 then 1 else 0)))"

subsection \<open>A sample account\<close>

text \<open>
  A feed of two pages used to run the definitions on concrete data. The clock reads
  2024-03-01T00:00:00 UTC and the system's time zone is one hour east of UTC. The first
  page holds \<open>post1\<close> (2024-01-01T12:00:00Z) and \<open>post2\<close> (2024-02-25T08:00:00+00:00), the
  second page holds \<open>post3\<close> (2023-06-15T09:30:00Z).
\<close>

definition ascii_lower :: "char \<Rightarrow> char" where
  "ascii_lower c =
     (let k = (of_char c :: nat) in if 65 \<le> k \<and> k \<le> 90 then char_of (k + 32) else c)"

definition post1 :: post_view where
  "post1 = \<lparr>uri = ''at://did:plc:abc/app.bsky.feed.post/k1'',
             indexed_at = ''2024-01-01T12:00:00Z'',
             record_text = Some ''Foobar'', reply = None, embed = None\<rparr>"

definition post2 :: post_view where
  "post2 = \<lparr>uri = ''at://did:plc:abc/app.bsky.feed.post/k2'',
             indexed_at = ''2024-02-25T08:00:00+00:00'',
             record_text = Some ''too recent'', reply = None, embed = None\<rparr>"

definition post3 :: post_view where
  "post3 = \<lparr>uri = ''at://did:plc:abc/app.bsky.feed.post/k3'',
             indexed_at = ''2023-06-15T09:30:00Z'',
             record_text = Some ''food for thought'', reply = None, embed = None\<rparr>"

text \<open>
  A post whose timestamp carries no offset. Read as UTC it lies half an hour after the
  cutoff of the sample runs (2024-01-31T00:00:00 UTC); it is in no page of the feed.
\<close>

definition post4 :: post_view where
  "post4 = \<lparr>uri = ''at://did:plc:abc/app.bsky.feed.post/k4'',
             indexed_at = ''2024-01-31T00:30:00'',
             record_text = Some ''football tonight'', reply = None, embed = None\<rparr>"

definition sample_isoparse :: "string \<Rightarrow> exn + datetime" where
  "sample_isoparse s =
     (if s = ''2024-01-01T12:00:00Z'' then Inr \<lparr>wall = 63839707200000000, utcoffset = Some 0\<rparr>
      else if s = ''2024-02-25T08:00:00+00:00''
        then Inr \<lparr>wall = 63844444800000000, utcoffset = Some 0\<rparr>
      else if s = ''2023-06-15T09:30:00Z''
        then Inr \<lparr>wall = 63822418200000000, utcoffset = Some 0\<rparr>
      else if s = ''2024-01-01T12:00:00''
        then Inr \<lparr>wall = 63839707200000000, utcoffset = None\<rparr>
      else if s = ''2024-01-31T00:30:00''
        then Inr \<lparr>wall = 63842257800000000, utcoffset = None\<rparr>
      else Inl ValueError)"

definition sample_feed :: "nat \<Rightarrow> string \<Rightarrow> string option \<Rightarrow> nat \<Rightarrow> exn + feed_response" where
  "sample_feed t actor cur limit =
     (if cur = None then Inr \<lparr>feed = [post1, post2], cursor = Some ''page2''\<rparr>
      else if cur = Some ''page2'' then Inr \<lparr>feed = [post3], cursor = None\<rparr>
      else Inl RequestError)"

text \<open>
  The sample world; \<open>errs\<close> gives the exception raised by the call issued as a given
  effect number. Its patterns have no metacharacters, so a regex search is a substring
  test, on the lowered strings under \<^verbatim>\<open>re.IGNORECASE\<close>. Its backup lines are far
  shorter than the buffer, so no write fills it.
\<close>

definition sample_env :: "(nat \<times> exn) list \<Rightarrow> env" where
  "sample_env errs =
     \<lparr>now_utc = 63844848000000000,
      local_utcoffset = (\<lambda>w. 3600000000),
      dateutil_isoparse = sample_isoparse,
      dateutil_parse = sample_isoparse,
      re_error = (\<lambda>p. None),
      re_search = (\<lambda>p ic s. if ic then str_contains (map ascii_lower s) (map ascii_lower p)
                             else str_contains s p),
      str_lower = map ascii_lower,
      get_author_feed = sample_feed,
      io_error = map_of errs,
      write_through = (\<lambda>t. False)\<rparr>"

definition sample_params :: "bool \<Rightarrow> bool \<Rightarrow> params" where
  "sample_params preview q =
     \<lparr>handle = ''me.bsky.social'', token = ''app-password'', days_old = 30,
      preview_only = preview, log_file = None, match_patterns = [''foo''],
      use_regex = False, after = None, before = None, backup_file = None,
      include_replies = False, include_reposts = False, quiet = q\<rparr>"

text \<open>
  The matched posts of the sample feed, and the traces of two runs over it: a deleting run
  in which the three attempts to delete \<open>post1\<close> fail and \<open>post3\<close> is deleted, and a
  preview run.
\<close>

definition sample_matched :: "(string \<times> post_view \<times> int) list" where
  "sample_matched = [(uri post1, post1, 63839707200000000), (uri post3, post3, 63822418200000000)]"

definition sample_delete_errors :: "(nat \<times> exn) list" where
  "sample_delete_errors = [(7, RequestError), (8, RequestError), (9, RequestError)]"

definition sample_trace_delete :: "event list" where
  "sample_trace_delete =
     [Done (ClientLogin ''me.bsky.social'' ''app-password''),
      Done (GetAuthorFeed ''me.bsky.social'' None 50),
      Done (GetAuthorFeed ''me.bsky.social'' (Some ''page2'') 50),
      Done (OpenAppend BackupFh ''deleted_posts_backup.jsonl''),
      Done (OpenAppend LogFh ''deleted_posts_log.txt''),
      Done (WriteLog 63839707200000000 ''Foobar''),
      Done (WriteBackup
        \<lparr>be_uri = uri post1, be_datetime = 63839707200000000, be_post = post1\<rparr>),
      Failed (DeleteRecord ''me.bsky.social'' ''app.bsky.feed.post'' ''k1'') RequestError,
      Failed (DeleteRecord ''me.bsky.social'' ''app.bsky.feed.post'' ''k1'') RequestError,
      Failed (DeleteRecord ''me.bsky.social'' ''app.bsky.feed.post'' ''k1'') RequestError,
      Done (LogWarning (uri post1)),
      Done (WriteLog 63822418200000000 ''food for thought''),
      Done (WriteBackup
        \<lparr>be_uri = uri post3, be_datetime = 63822418200000000, be_post = post3\<rparr>),
      Done (DeleteRecord ''me.bsky.social'' ''app.bsky.feed.post'' ''k3''),
      Done (Close LogFh),
      Done (Close BackupFh)]"

definition sample_trace_preview :: "event list" where
  "sample_trace_preview =
     [Done (ClientLogin ''me.bsky.social'' ''app-password''),
      Done (GetAuthorFeed ''me.bsky.social'' None 50),
      Done (GetAuthorFeed ''me.bsky.social'' (Some ''page2'') 50),
      Done (OpenAppend LogFh ''preview_log.txt''),
      Done (WriteLog 63839707200000000 ''Foobar''),
      Done (WriteLog 63822418200000000 ''food for thought''),
      Done (Close LogFh)]"

text \<open>The trace of a deleting run in which the first write to the log file raises.\<close>

definition sample_trace_abort :: "event list" where
  "sample_trace_abort =
     [Done (ClientLogin ''me.bsky.social'' ''app-password''),
      Done (GetAuthorFeed ''me.bsky.social'' None 50),
      Done (GetAuthorFeed ''me.bsky.social'' (Some ''page2'') 50),
      Done (OpenAppend BackupFh ''deleted_posts_backup.jsonl''),
      Done (OpenAppend LogFh ''deleted_posts_log.txt''),
      Failed (WriteLog 63839707200000000 ''Foobar'') OSError,
      Done (Close LogFh)]"

text \<open>
  The trace of a deleting run without failed deletions in which the close of the backup
  file raises.
\<close>

definition sample_trace_lost :: "event list" where
  "sample_trace_lost =
     [Done (ClientLogin ''me.bsky.social'' ''app-password''),
      Done (GetAuthorFeed ''me.bsky.social'' None 50),
      Done (GetAuthorFeed ''me.bsky.social'' (Some ''page2'') 50),
      Done (OpenAppend BackupFh ''deleted_posts_backup.jsonl''),
      Done (OpenAppend LogFh ''deleted_posts_log.txt''),
      Done (WriteLog 63839707200000000 ''Foobar''),
      Done (WriteBackup
        \<lparr>be_uri = uri post1, be_datetime = 63839707200000000, be_post = post1\<rparr>),
      Done (DeleteRecord ''me.bsky.social'' ''app.bsky.feed.post'' ''k1''),
      Done (WriteLog 63822418200000000 ''food for thought''),
      Done (WriteBackup
        \<lparr>be_uri = uri post3, be_datetime = 63822418200000000, be_post = post3\<rparr>),
      Done (DeleteRecord ''me.bsky.social'' ''app.bsky.feed.post'' ''k3''),
      Done (Close LogFh),
      Failed (Close BackupFh) OSError]"

text \<open>
  A second feed, of one page: \<open>post6\<close> is a reply, \<open>post7\<close> carries a dict embed and
  \<open>post5\<close> an object embed that both declare the repost view type (the object under the
  attribute name \<^verbatim>\<open>py_type\<close>), all three of 2023-06-15T09:30:00Z, and \<open>post4\<close> is the
  post without offset from above. The text of each holds the sample pattern.
\<close>

definition post5 :: post_view where
  "post5 = \<lparr>uri = ''at://did:plc:abc/app.bsky.feed.post/k5'',
             indexed_at = ''2023-06-15T09:30:00Z'',
             record_text = Some ''foo shared'', reply = None,
             embed = Some (PyObject [(''py_type'', PyStr ''app.bsky.embed.record#view'')])\<rparr>"

definition post6 :: post_view where
  "post6 = \<lparr>uri = ''at://did:plc:abc/app.bsky.feed.post/k6'',
             indexed_at = ''2023-06-15T09:30:00Z'',
             record_text = Some ''foo answered'',
             reply = Some (PyObject [(''parent'', PyStr ''at://did:plc:xyz/app.bsky.feed.post/k0'')]),
             embed = None\<rparr>"

definition post7 :: post_view where
  "post7 = \<lparr>uri = ''at://did:plc:abc/app.bsky.feed.post/k7'',
             indexed_at = ''2023-06-15T09:30:00Z'',
             record_text = Some ''foo quoted'', reply = None,
             embed = Some (PyDict [(''$type'', PyStr ''app.bsky.embed.record#view'')])\<rparr>"

definition sample_feed_tagged ::
  "nat \<Rightarrow> string \<Rightarrow> string option \<Rightarrow> nat \<Rightarrow> exn + feed_response" where
  "sample_feed_tagged t actor cur limit =
     Inr \<lparr>feed = [post6, post7, post5, post4], cursor = None\<rparr>"

definition sample_env_tagged :: env where
  "sample_env_tagged = (sample_env [])\<lparr>get_author_feed := sample_feed_tagged\<rparr>"

text \<open>The criteria the sample runs compute: 30 days before the sample clock, one pattern.\<close>

definition sample_criteria :: criteria where
  "sample_criteria =
     \<lparr>cutoff = 63842256000000000, after_dt = None, before_dt = None,
      compiled_patterns = [Keyword ''foo'']\<rparr>"

subsection \<open>Reading a trace\<close>

fun op_of :: "event \<Rightarrow> op" where
  "op_of (Done x) = x"
| "op_of (Failed x err) = x"

text \<open>
  The backup lines and the log records handed to a \<^verbatim>\<open>write\<close> that returned, in the
  order of the calls. They are in the buffer of their handle or in the file.
\<close>

fun backup_written :: "event \<Rightarrow> backup_entry option" where
  "backup_written (Done (WriteBackup b)) = Some b"
| "backup_written ev = None"

definition backup_lines :: "event list \<Rightarrow> backup_entry list" where
  "backup_lines evs = List.map_filter backup_written evs"

fun log_written :: "event \<Rightarrow> (int \<times> string) option" where
  "log_written (Done (WriteLog pt s)) = Some (pt, s)"
| "log_written ev = None"

definition log_lines :: "event list \<Rightarrow> (int \<times> string) list" where
  "log_lines evs = List.map_filter log_written evs"

text \<open>The record key of a delete request, whether the request succeeded or not.\<close>

fun delete_rkey_op :: "op \<Rightarrow> string option" where
  "delete_rkey_op (DeleteRecord r c k) = Some k"
| "delete_rkey_op x = None"

definition delete_rkey :: "event \<Rightarrow> string option" where
  "delete_rkey ev = delete_rkey_op (op_of ev)"

fun delete_done :: "event \<Rightarrow> bool" where
  "delete_done (Done (DeleteRecord r c k)) = True"
| "delete_done ev = False"

fun delete_given_up :: "event \<Rightarrow> bool" where
  "delete_given_up (Done (LogWarning u)) = True"
| "delete_given_up ev = False"

fun page_fetched :: "event \<Rightarrow> bool" where
  "page_fetched (Done (GetAuthorFeed actor cur limit)) = True"
| "page_fetched ev = False"

text \<open>Requests of the scanning part of a run: the login and the feed requests.\<close>

fun scan_op :: "op \<Rightarrow> bool" where
  "scan_op (ClientLogin h p) = True"
| "scan_op (GetAuthorFeed actor cur limit) = True"
| "scan_op x = False"

text \<open>Everything else: the files, the delete requests and the warnings.\<close>

fun output_op :: "op \<Rightarrow> bool" where
  "output_op (ClientLogin h p) = False"
| "output_op (GetAuthorFeed actor cur limit) = False"
| "output_op x = True"

text \<open>An open, write or close of the backup file.\<close>

fun backup_op :: "op \<Rightarrow> bool" where
  "backup_op (OpenAppend f path) = (f = BackupFh)"
| "backup_op (WriteBackup b) = True"
| "backup_op (Close f) = (f = BackupFh)"
| "backup_op x = False"

text \<open>A close of a file.\<close>

fun close_op :: "op \<Rightarrow> bool" where
  "close_op (Close f) = True"
| "close_op x = False"

text \<open>An open or a close of a file.\<close>

fun file_op :: "op \<Rightarrow> bool" where
  "file_op (OpenAppend f path) = True"
| "file_op (Close f) = True"
| "file_op x = False"

text \<open>
  Whether a file handle is open after the events of a trace, given whether it was open
  before them. A close that raises leaves the handle closed.
\<close>

fun still_open :: "fh \<Rightarrow> bool \<Rightarrow> event list \<Rightarrow> bool" where
  "still_open f b [] = b"
| "still_open f b (Done (OpenAppend g path) # evs) = still_open f (if g = f then True else b) evs"
| "still_open f b (Done (Close g) # evs) = still_open f (if g = f then False else b) evs"
| "still_open f b (Failed (Close g) err # evs) = still_open f (if g = f then False else b) evs"
| "still_open f b (ev # evs) = still_open f b evs"

text \<open>
  How the deletion of a post ended: a delete request that succeeded, or the warning logged
  when the attempts were used up; both are read as the record key of the post.
\<close>

fun settled :: "event \<Rightarrow> string option" where
  "settled (Done (DeleteRecord r c k)) = Some k"
| "settled (Done (LogWarning u)) = Some (rkey_of u)"
| "settled ev = None"

definition settled_keys :: "event list \<Rightarrow> string list" where
  "settled_keys evs = List.map_filter settled evs"

text \<open>
  The contents of the backup file. \<open>backup_store e t disk buf evs\<close> follows the events
  \<open>evs\<close>, the first of them being effect number \<open>t\<close>, from the lines \<open>disk\<close> in the file
  and the lines \<open>buf\<close> in the buffer of the handle: a write that returns adds its line to
  the buffer, and the buffer goes to the file when \<open>write_through\<close> says so and when the
  handle is closed; a close that raises loses what the buffer held.
\<close>

fun backup_store ::
  "env \<Rightarrow> nat \<Rightarrow> backup_entry list \<Rightarrow> backup_entry list \<Rightarrow> event list
     \<Rightarrow> backup_entry list \<times> backup_entry list" where
  "backup_store e t disk buf [] = (disk, buf)"
| "backup_store e t disk buf (Done (WriteBackup b) # evs) =
     (if write_through e t then backup_store e (Suc t) (disk @ buf @ [b]) [] evs
      else backup_store e (Suc t) disk (buf @ [b]) evs)"
| "backup_store e t disk buf (Done (Close f) # evs) =
     (if f = BackupFh then backup_store e (Suc t) (disk @ buf) [] evs
      else backup_store e (Suc t) disk buf evs)"
| "backup_store e t disk buf (Failed (Close f) err # evs) =
     (if f = BackupFh then backup_store e (Suc t) disk [] evs
      else backup_store e (Suc t) disk buf evs)"
| "backup_store e t disk buf (ev # evs) = backup_store e (Suc t) disk buf evs"

text \<open>The lines in the backup file after the trace of a run, or after a part of it.\<close>

definition backup_on_disk :: "env \<Rightarrow> event list \<Rightarrow> backup_entry list" where
  "backup_on_disk e tr = fst (backup_store e 0 [] [] tr)"

text \<open>
  Write-ahead of the calls: whenever a delete request is issued, a \<^verbatim>\<open>write\<close> of a
  backup line has returned before, and the last such line is the entry of the post the
  request names. \<open>pre\<close> holds the lines handed over before the events \<open>evs\<close>.
\<close>

definition write_ahead :: "backup_entry list \<Rightarrow> event list \<Rightarrow> bool" where
  "write_ahead pre evs =
     (\<forall>i<length evs. \<forall>k. delete_rkey (evs ! i) = Some k \<longrightarrow>
        pre @ backup_lines (take i evs) \<noteq> []
        \<and> rkey_of (be_uri (last (pre @ backup_lines (take i evs)))) = k)"

text \<open>The posts collected by the scanning part of a run; none when it did not complete.\<close>

definition matched_posts :: "nat \<Rightarrow> env \<Rightarrow> params \<Rightarrow> (string \<times> post_view \<times> int) list" where
  "matched_posts fuel e a =
     (case scan_phase fuel e a 0 of
        Some (evs, Inr (posts, page_bar)) \<Rightarrow> posts
      | _ \<Rightarrow> [])"

section \<open>Properties\<close>

subsection \<open>Single calls and retried calls\<close>

lemma perform_Inr: "perform e x t = (evs, Inr u) \<Longrightarrow> evs = [Done x]"
  by (auto simp: perform_def split: option.splits)

lemma perform_Inl: "perform e x t = (evs, Inl err) \<Longrightarrow> evs = [Failed x err]"
  by (auto simp: perform_def split: option.splits)

lemma perform_single:
  "(\<exists>v. perform e x t = ([Done x], Inr v)) \<or> (\<exists>err. perform e x t = ([Failed x err], Inl err))"
  by (simp add: perform_def split: option.split)

lemma call_get_author_feed_single:
  "(\<exists>v. call_get_author_feed e actor cur limit t = ([Done (GetAuthorFeed actor cur limit)], Inr v))
   \<or> (\<exists>err. call_get_author_feed e actor cur limit t
         = ([Failed (GetAuthorFeed actor cur limit) err], Inl err))"
  by (simp add: call_get_author_feed_def split: sum.split)

lemma retrying_shape:
  assumes single: "\<And>s. (\<exists>v. f s = ([Done x], Inr v)) \<or> (\<exists>err. f s = ([Failed x err], Inl err))"
  shows "retrying k f t = (evs, r) \<Longrightarrow>
     (\<exists>errs. evs = map (Failed x) errs @ (case r of Inr v \<Rightarrow> [Done x] | Inl err \<Rightarrow> [])
        \<and> (case r of Inr v \<Rightarrow> True | Inl err \<Rightarrow> errs \<noteq> []))"
proof (induction k arbitrary: t evs r)
  case 0
  from single [of t] show ?case
  proof
    assume "\<exists>v. f t = ([Done x], Inr v)"
    with 0 have "evs = map (Failed x) [] @ [Done x]" and "\<exists>v. r = Inr v" by auto
    then show ?thesis by (intro exI [of _ "[]"]) auto
  next
    assume "\<exists>err. f t = ([Failed x err], Inl err)"
    then obtain err where "f t = ([Failed x err], Inl err)" ..
    with 0 have "evs = map (Failed x) [err]" and "r = Inl err" by auto
    then show ?thesis by (intro exI [of _ "[err]"]) auto
  qed
next
  case (Suc k)
  from single [of t] show ?case
  proof
    assume "\<exists>v. f t = ([Done x], Inr v)"
    with Suc.prems have "evs = map (Failed x) [] @ [Done x]" and "\<exists>v. r = Inr v" by auto
    then show ?thesis by (intro exI [of _ "[]"]) auto
  next
    assume "\<exists>err. f t = ([Failed x err], Inl err)"
    then obtain err where ft: "f t = ([Failed x err], Inl err)" ..
    obtain evs' r' where rec: "retrying k f (t + 1) = (evs', r')" by (cases "retrying k f (t + 1)")
    with Suc.prems ft have evs: "evs = Failed x err # evs'" and r: "r = r'" by auto
    from Suc.IH [OF rec] obtain errs where
      "evs' = map (Failed x) errs @ (case r' of Inr v \<Rightarrow> [Done x] | Inl err \<Rightarrow> [])" by blast
    with evs r have "evs = map (Failed x) (err # errs) @ (case r of Inr v \<Rightarrow> [Done x] | Inl err \<Rightarrow> [])"
      by simp
    then show ?thesis by (intro exI [of _ "err # errs"]) (auto split: sum.splits)
  qed
qed

lemma delete_record_shape:
  assumes "delete_record e h u t = (evs, r)"
  shows "\<exists>errs. evs = map (Failed (DeleteRecord h ''app.bsky.feed.post'' (rkey_of u))) errs
            @ (case r of Inr v \<Rightarrow> [Done (DeleteRecord h ''app.bsky.feed.post'' (rkey_of u))]
               | Inl err \<Rightarrow> [])"
  using retrying_shape [of "perform e (DeleteRecord h ''app.bsky.feed.post'' (rkey_of u))"
      "DeleteRecord h ''app.bsky.feed.post'' (rkey_of u)" 2 t evs r] assms perform_single
  unfolding delete_record_def retry_on_network_def by blast

lemma fetch_feed_page_shape:
  assumes "fetch_feed_page e actor cur limit t = (evs, r)"
  shows "\<exists>errs. evs = map (Failed (GetAuthorFeed actor cur limit)) errs
            @ (case r of Inr v \<Rightarrow> [Done (GetAuthorFeed actor cur limit)] | Inl err \<Rightarrow> [])"
  using retrying_shape [of "call_get_author_feed e actor cur limit"
      "GetAuthorFeed actor cur limit" 2 t evs r] assms call_get_author_feed_single
  unfolding fetch_feed_page_def retry_on_network_def by blast

text \<open>One round of the post loop.\<close>

lemma process_loop_Cons_cases:
  assumes run: "process_loop e a (x # rest) d f t = (evs, r)"
  obtains
    (log_failed) err where
      "evs = [Failed (WriteLog (fst (log_record_of x)) (snd (log_record_of x))) err]" "r = Inl err"
  | (previewed) t' evs' where
      "preview_only a" "process_loop e a rest d f t' = (evs', r)"
      "evs = Done (WriteLog (fst (log_record_of x)) (snd (log_record_of x))) # evs'"
  | (backup_failed) err where
      "\<not> preview_only a"
      "evs = [Done (WriteLog (fst (log_record_of x)) (snd (log_record_of x))),
              Failed (WriteBackup (backup_entry_of x)) err]" "r = Inl err"
  | (deleted) errs t' evs' where
      "\<not> preview_only a" "process_loop e a rest (d + 1) f t' = (evs', r)"
      "evs = Done (WriteLog (fst (log_record_of x)) (snd (log_record_of x)))
               # Done (WriteBackup (backup_entry_of x))
               # map (Failed (DeleteRecord (handle a) ''app.bsky.feed.post'' (rkey_of (fst x)))) errs
               @ Done (DeleteRecord (handle a) ''app.bsky.feed.post'' (rkey_of (fst x))) # evs'"
  | (given_up) errs t' evs' where
      "\<not> preview_only a" "process_loop e a rest d (f + 1) t' = (evs', r)"
      "evs = Done (WriteLog (fst (log_record_of x)) (snd (log_record_of x)))
               # Done (WriteBackup (backup_entry_of x))
               # map (Failed (DeleteRecord (handle a) ''app.bsky.feed.post'' (rkey_of (fst x)))) errs
               @ Done (LogWarning (fst x)) # evs'"
proof -
  let ?wl = "WriteLog (fst (log_record_of x)) (snd (log_record_of x))"
  obtain evs1 r1 where p1: "perform e ?wl t = (evs1, r1)" by (cases "perform e ?wl t")
  show thesis
  proof (cases r1)
    case (Inl err)
    with p1 run perform_Inl [of e ?wl t evs1 err] show thesis
      by (intro log_failed [of err]) auto
  next
    case (Inr u1)
    with p1 have evs1: "evs1 = [Done ?wl]" by (auto dest: perform_Inr)
    show thesis
    proof (cases "preview_only a")
      case True
      obtain evs' r' where rec: "process_loop e a rest d f (t + length evs1) = (evs', r')"
        by (cases "process_loop e a rest d f (t + length evs1)")
      with run p1 Inr True evs1 show thesis
        by (intro previewed [of "t + length evs1" evs']) auto
    next
      case False
      let ?wb = "WriteBackup (backup_entry_of x)"
      obtain evs2 r2 where p2: "perform e ?wb (t + length evs1) = (evs2, r2)"
        by (cases "perform e ?wb (t + length evs1)")
      show thesis
      proof (cases r2)
        case (Inl err)
        with p2 have "evs2 = [Failed ?wb err]" by (auto dest: perform_Inl)
        with run p1 \<open>r1 = Inr u1\<close> False evs1 p2 Inl show thesis
          by (intro backup_failed [of err]) auto
      next
        case r2: (Inr u2)
        with p2 have evs2: "evs2 = [Done ?wb]" by (auto dest: perform_Inr)
        let ?t3 = "t + length evs1 + length evs2"
        obtain evs3 r3 where p3: "delete_record e (handle a) (fst x) ?t3 = (evs3, r3)"
          by (cases "delete_record e (handle a) (fst x) ?t3")
        from delete_record_shape [OF p3] obtain errs where
          evs3: "evs3 = map (Failed (DeleteRecord (handle a) ''app.bsky.feed.post'' (rkey_of (fst x)))) errs
            @ (case r3 of Inr v \<Rightarrow> [Done (DeleteRecord (handle a) ''app.bsky.feed.post'' (rkey_of (fst x)))]
               | Inl err \<Rightarrow> [])" ..
        show thesis
        proof (cases r3)
          case (Inr u3)
          obtain evs' r' where rec:
            "process_loop e a rest (d + 1) f (?t3 + length evs3) = (evs', r')"
            by (cases "process_loop e a rest (d + 1) f (?t3 + length evs3)")
          with run p1 \<open>r1 = Inr u1\<close> False p2 r2 p3 Inr evs1 evs2 evs3 show thesis
            by (intro deleted [of "?t3 + length evs3" evs' errs]) auto
        next
          case (Inl err)
          obtain evs' r' where rec:
            "process_loop e a rest d (f + 1) (?t3 + length evs3 + 1) = (evs', r')"
            by (cases "process_loop e a rest d (f + 1) (?t3 + length evs3 + 1)")
          with run p1 \<open>r1 = Inr u1\<close> False p2 r2 p3 Inl evs1 evs2 evs3 show thesis
            by (intro given_up [of "?t3 + length evs3 + 1" evs' errs]) auto
        qed
      qed
    qed
  qed
qed

lemma map_filter_append: "List.map_filter g (xs @ ys) = List.map_filter g xs @ List.map_filter g ys"
  by (simp add: List.map_filter_def)

lemma map_filter_Failed:
  "(\<And>err. g (Failed x err) = None) \<Longrightarrow> List.map_filter g (map (Failed x) errs) = []"
  by (induction errs) simp_all

lemma backup_lines_append: "backup_lines (xs @ ys) = backup_lines xs @ backup_lines ys"
  by (simp add: backup_lines_def map_filter_append)

lemma backup_lines_Nil: "backup_lines [] = []"
  by (simp add: backup_lines_def)

lemma backup_lines_Cons:
  "backup_lines (ev # evs) =
     (case backup_written ev of None \<Rightarrow> backup_lines evs | Some b \<Rightarrow> b # backup_lines evs)"
  by (simp add: backup_lines_def split: option.split)

lemma backup_lines_Failed: "backup_lines (map (Failed x) errs) = []"
  by (simp add: backup_lines_def map_filter_Failed)

lemma log_lines_append: "log_lines (xs @ ys) = log_lines xs @ log_lines ys"
  by (simp add: log_lines_def map_filter_append)

lemma log_lines_Nil: "log_lines [] = []"
  by (simp add: log_lines_def)

lemma log_lines_Cons:
  "log_lines (ev # evs) =
     (case log_written ev of None \<Rightarrow> log_lines evs | Some b \<Rightarrow> b # log_lines evs)"
  by (simp add: log_lines_def split: option.split)

lemma log_lines_Failed: "log_lines (map (Failed x) errs) = []"
  by (simp add: log_lines_def map_filter_Failed)

lemma settled_keys_append: "settled_keys (xs @ ys) = settled_keys xs @ settled_keys ys"
  by (simp add: settled_keys_def map_filter_append)

lemma settled_keys_Nil: "settled_keys [] = []"
  by (simp add: settled_keys_def)

lemma settled_keys_Cons:
  "settled_keys (ev # evs) =
     (case settled ev of None \<Rightarrow> settled_keys evs | Some b \<Rightarrow> b # settled_keys evs)"
  by (simp add: settled_keys_def split: option.split)

lemma settled_keys_Failed: "settled_keys (map (Failed x) errs) = []"
  by (simp add: settled_keys_def map_filter_Failed)

lemmas trace_simps =
  backup_lines_append backup_lines_Nil backup_lines_Cons backup_lines_Failed
  log_lines_append log_lines_Nil log_lines_Cons log_lines_Failed
  settled_keys_append settled_keys_Nil settled_keys_Cons settled_keys_Failed

lemma filter_Failed: "(\<And>err. \<not> P (Failed x err)) \<Longrightarrow> filter P (map (Failed x) errs) = []"
  by (induction errs) simp_all

lemma list_all_Failed: "(\<And>err. P (Failed x err)) \<Longrightarrow> list_all P (map (Failed x) errs)"
  by (induction errs) simp_all

subsection \<open>The post loop\<close>

lemma process_loop_log_lines:
  "process_loop e a posts d f t = (evs, r) \<Longrightarrow>
     prefix (log_lines evs) (map log_record_of posts)
     \<and> ((\<exists>c. r = Inr c) \<longrightarrow> log_lines evs = map log_record_of posts)"
proof (induction posts arbitrary: d f t evs r)
  case Nil
  then show ?case by (auto simp: trace_simps)
next
  case (Cons x rest)
  from Cons.prems show ?case
  proof (cases rule: process_loop_Cons_cases)
    case (log_failed err)
    then show ?thesis by (simp add: trace_simps)
  next
    case (previewed t' evs')
    with Cons.IH [OF previewed(2)] show ?thesis by (simp add: trace_simps)
  next
    case (backup_failed err)
    then show ?thesis by (simp add: trace_simps)
  next
    case (deleted errs t' evs')
    with Cons.IH [OF deleted(2)] show ?thesis by (simp add: trace_simps)
  next
    case (given_up errs t' evs')
    with Cons.IH [OF given_up(2)] show ?thesis by (simp add: trace_simps)
  qed
qed

lemma process_loop_backup_lines:
  "process_loop e a posts d f t = (evs, r) \<Longrightarrow> \<not> preview_only a \<Longrightarrow>
     prefix (backup_lines evs) (map backup_entry_of posts)
     \<and> ((\<exists>c. r = Inr c) \<longrightarrow> backup_lines evs = map backup_entry_of posts)"
proof (induction posts arbitrary: d f t evs r)
  case Nil
  then show ?case by (auto simp: trace_simps)
next
  case (Cons x rest)
  from Cons.prems(1) show ?case
  proof (cases rule: process_loop_Cons_cases)
    case (log_failed err)
    then show ?thesis by (simp add: trace_simps)
  next
    case (previewed t' evs')
    with Cons.prems show ?thesis by simp
  next
    case (backup_failed err)
    then show ?thesis by (simp add: trace_simps)
  next
    case (deleted errs t' evs')
    with Cons.IH [OF deleted(2)] show ?thesis by (simp add: trace_simps)
  next
    case (given_up errs t' evs')
    with Cons.IH [OF given_up(2)] show ?thesis by (simp add: trace_simps)
  qed
qed

lemma process_loop_settled:
  "process_loop e a posts d f t = (evs, r) \<Longrightarrow> \<not> preview_only a \<Longrightarrow>
     prefix (settled_keys evs) (map (\<lambda>x. rkey_of (fst x)) posts)
     \<and> ((\<exists>c. r = Inr c) \<longrightarrow> settled_keys evs = map (\<lambda>x. rkey_of (fst x)) posts)"
proof (induction posts arbitrary: d f t evs r)
  case Nil
  then show ?case by (auto simp: trace_simps)
next
  case (Cons x rest)
  from Cons.prems(1) show ?case
  proof (cases rule: process_loop_Cons_cases)
    case (log_failed err)
    then show ?thesis by (simp add: trace_simps)
  next
    case (previewed t' evs')
    with Cons.prems show ?thesis by simp
  next
    case (backup_failed err)
    then show ?thesis by (simp add: trace_simps)
  next
    case (deleted errs t' evs')
    with Cons.IH [OF deleted(2)] show ?thesis by (simp add: trace_simps)
  next
    case (given_up errs t' evs')
    with Cons.IH [OF given_up(2)] show ?thesis by (simp add: trace_simps)
  qed
qed

lemma process_loop_output_only:
  "process_loop e a posts d f t = (evs, r) \<Longrightarrow> list_all (\<lambda>ev. output_op (op_of ev)) evs"
proof (induction posts arbitrary: d f t evs r)
  case Nil
  then show ?case by auto
next
  case (Cons x rest)
  from Cons.prems(1) show ?case
  proof (cases rule: process_loop_Cons_cases)
    case (log_failed err)
    then show ?thesis by simp
  next
    case (previewed t' evs')
    with Cons.IH [OF previewed(2)] show ?thesis by simp
  next
    case (backup_failed err)
    then show ?thesis by simp
  next
    case (deleted errs t' evs')
    with Cons.IH [OF deleted(2)] show ?thesis by (simp add: list_all_Failed)
  next
    case (given_up errs t' evs')
    with Cons.IH [OF given_up(2)] show ?thesis by (simp add: list_all_Failed)
  qed
qed

lemma process_loop_preview:
  "process_loop e a posts d f t = (evs, r) \<Longrightarrow> preview_only a \<Longrightarrow>
     list_all (\<lambda>ev. \<not> backup_op (op_of ev) \<and> delete_rkey ev = None) evs
     \<and> (\<forall>c. r = Inr c \<longrightarrow> c = (d, f))"
proof (induction posts arbitrary: d f t evs r)
  case Nil
  then show ?case by auto
next
  case (Cons x rest)
  from Cons.prems(1) show ?case
  proof (cases rule: process_loop_Cons_cases)
    case (log_failed err)
    then show ?thesis by (simp add: delete_rkey_def)
  next
    case (previewed t' evs')
    with Cons.IH [OF previewed(2)] show ?thesis by (simp add: delete_rkey_def)
  next
    case (backup_failed err)
    with Cons.prems show ?thesis by simp
  next
    case (deleted errs t' evs')
    with Cons.prems show ?thesis by simp
  next
    case (given_up errs t' evs')
    with Cons.prems show ?thesis by simp
  qed
qed

lemma process_loop_counts:
  "process_loop e a posts d f t = (evs, Inr (d', f')) \<Longrightarrow> \<not> preview_only a \<Longrightarrow>
     d' = d + length (filter delete_done evs)
     \<and> f' = f + length (filter delete_given_up evs)
     \<and> length (filter delete_done evs) + length (filter delete_given_up evs) = length posts"
proof (induction posts arbitrary: d f t evs)
  case Nil
  then show ?case by auto
next
  case (Cons x rest)
  from Cons.prems(1) show ?case
  proof (cases rule: process_loop_Cons_cases)
    case (log_failed err)
    then show ?thesis by simp
  next
    case (previewed t' evs')
    with Cons.prems show ?thesis by simp
  next
    case (backup_failed err)
    then show ?thesis by simp
  next
    case (deleted errs t' evs')
    with Cons.IH [OF deleted(2)] show ?thesis by (simp add: filter_Failed)
  next
    case (given_up errs t' evs')
    with Cons.IH [OF given_up(2)] show ?thesis by (simp add: filter_Failed)
  qed
qed

subsection \<open>Write-ahead\<close>

lemma write_ahead_Nil: "write_ahead pre []"
  by (simp add: write_ahead_def)

lemma write_ahead_Cons:
  "write_ahead pre (ev # evs) =
     ((\<forall>k. delete_rkey ev = Some k \<longrightarrow> pre \<noteq> [] \<and> rkey_of (be_uri (last pre)) = k)
      \<and> write_ahead (pre @ (case backup_written ev of None \<Rightarrow> [] | Some b \<Rightarrow> [b])) evs)"
proof (cases "backup_written ev")
  case None
  then have "\<And>xs. backup_lines (ev # xs) = backup_lines xs"
    by (simp add: backup_lines_Cons)
  with None show ?thesis
    unfolding write_ahead_def by (simp add: All_less_Suc2 backup_lines_Nil)
next
  case (Some b)
  then have "\<And>xs. backup_lines (ev # xs) = b # backup_lines xs"
    by (simp add: backup_lines_Cons)
  with Some show ?thesis
    unfolding write_ahead_def by (simp add: All_less_Suc2 backup_lines_Nil)
qed

lemma write_ahead_append:
  "write_ahead pre (xs @ ys) = (write_ahead pre xs \<and> write_ahead (pre @ backup_lines xs) ys)"
proof (induction xs arbitrary: pre)
  case Nil
  show ?case by (simp add: write_ahead_Nil backup_lines_Nil)
next
  case (Cons ev xs)
  show ?case
    using Cons.IH [of "pre @ (case backup_written ev of None \<Rightarrow> [] | Some b \<Rightarrow> [b])"]
    by (simp add: write_ahead_Cons backup_lines_Cons split: option.split)
qed

lemma write_ahead_retries:
  "rkey_of (be_uri b) = k \<Longrightarrow> write_ahead (pre @ [b]) (map (Failed (DeleteRecord h c k)) errs)"
  by (induction errs) (simp_all add: write_ahead_Nil write_ahead_Cons delete_rkey_def)

lemma be_uri_backup_entry_of: "be_uri (backup_entry_of x) = fst x"
  by (simp add: backup_entry_of_def split: prod.split)

lemma process_loop_write_ahead:
  "process_loop e a posts d f t = (evs, r) \<Longrightarrow> write_ahead pre evs"
proof (induction posts arbitrary: d f t evs r pre)
  case Nil
  then show ?case by (auto simp: write_ahead_Nil)
next
  case (Cons x rest)
  from Cons.prems(1) show ?case
  proof (cases rule: process_loop_Cons_cases)
    case (log_failed err)
    then show ?thesis
      by (simp add: write_ahead_Cons write_ahead_Nil delete_rkey_def)
  next
    case (previewed t' evs')
    with Cons.IH [OF previewed(2), of pre] show ?thesis
      by (simp add: write_ahead_Cons delete_rkey_def)
  next
    case (backup_failed err)
    then show ?thesis
      by (simp add: write_ahead_Cons write_ahead_Nil delete_rkey_def)
  next
    case (deleted errs t' evs')
    with Cons.IH [OF deleted(2), of "pre @ [backup_entry_of x]"] show ?thesis
      by (simp add: write_ahead_Cons write_ahead_append write_ahead_retries delete_rkey_def
          backup_lines_Failed be_uri_backup_entry_of)
  next
    case (given_up errs t' evs')
    with Cons.IH [OF given_up(2), of "pre @ [backup_entry_of x]"] show ?thesis
      by (simp add: write_ahead_Cons write_ahead_append write_ahead_retries delete_rkey_def
          backup_lines_Failed be_uri_backup_entry_of)
  qed
qed

lemma write_ahead_no_deletes:
  "list_all (\<lambda>ev. delete_rkey ev = None) evs \<Longrightarrow> write_ahead pre evs"
  by (induction evs arbitrary: pre) (simp_all add: write_ahead_Nil write_ahead_Cons)

subsection \<open>The page loop\<close>

lemma paginate_Suc_cases:
  assumes run: "paginate (Suc fuel) e a c cur posts bar t = Some (evs, r)"
  obtains
    (fetch_failed) errs err where
      "evs = map (Failed (GetAuthorFeed (handle a) cur 50)) errs" "r = Inl err"
  | (scan_failed) errs and fd :: feed_response and err where
      "evs = map (Failed (GetAuthorFeed (handle a) cur 50)) errs
               @ [Done (GetAuthorFeed (handle a) cur 50)]"
      "scan_items e a c posts (feed fd) = Inl err" "r = Inl err"
  | (last_page) errs and fd :: feed_response and posts' where
      "evs = map (Failed (GetAuthorFeed (handle a) cur 50)) errs
               @ [Done (GetAuthorFeed (handle a) cur 50)]"
      "scan_items e a c posts (feed fd) = Inr posts'" "\<not> str_truthy (cursor fd)"
      "r = Inr (posts', tqdm_update bar)"
  | (next_page) errs and fd :: feed_response and posts' t' evs' where
      "evs = map (Failed (GetAuthorFeed (handle a) cur 50)) errs
               @ Done (GetAuthorFeed (handle a) cur 50) # evs'"
      "scan_items e a c posts (feed fd) = Inr posts'" "str_truthy (cursor fd)"
      "paginate fuel e a c (cursor fd) posts' (tqdm_update bar) t' = Some (evs', r)"
proof -
  obtain evs1 r1 where f1: "fetch_feed_page e (handle a) cur 50 t = (evs1, r1)"
    by (cases "fetch_feed_page e (handle a) cur 50 t")
  from fetch_feed_page_shape [OF f1] obtain errs where
    evs1: "evs1 = map (Failed (GetAuthorFeed (handle a) cur 50)) errs
             @ (case r1 of Inr v \<Rightarrow> [Done (GetAuthorFeed (handle a) cur 50)] | Inl err \<Rightarrow> [])" ..
  show thesis
  proof (cases r1)
    case (Inl err)
    from run have "evs = evs1" "r = Inl err"
      by (simp_all add: f1 Inl)
    with evs1 Inl show thesis by (intro fetch_failed [of errs err]) simp_all
  next
    case (Inr fd)
    with evs1 have evs1': "evs1 = map (Failed (GetAuthorFeed (handle a) cur 50)) errs
               @ [Done (GetAuthorFeed (handle a) cur 50)]" by simp
    show thesis
    proof (cases "scan_items e a c posts (feed fd)")
      case (Inl err)
      from run have "evs = evs1" "r = Inl err"
        by (simp_all add: f1 Inr Inl)
      with evs1' Inl show thesis by (intro scan_failed [of errs fd err]) simp_all
    next
      case posts': (Inr posts')
      show thesis
      proof (cases "str_truthy (cursor fd)")
        case False
        from run have "evs = evs1" "r = Inr (posts', tqdm_update bar)"
          by (simp_all add: f1 Inr posts' False Let_def)
        with evs1' posts' False show thesis by (intro last_page [of errs fd posts']) simp_all
      next
        case True
        from run have
          "(case paginate fuel e a c (cursor fd) posts' (tqdm_update bar) (t + length evs1) of
              None \<Rightarrow> None | Some (evs', r) \<Rightarrow> Some (evs1 @ evs', r)) = Some (evs, r)"
          by (simp add: f1 Inr posts' True Let_def)
        then obtain evs' where
          rec: "paginate fuel e a c (cursor fd) posts' (tqdm_update bar) (t + length evs1) = Some (evs', r)"
          and evs: "evs = evs1 @ evs'"
          by (cases "paginate fuel e a c (cursor fd) posts' (tqdm_update bar) (t + length evs1)")
             (auto split: prod.splits)
        from evs evs1' posts' True rec show thesis
          by (intro next_page [of errs evs' fd posts' "t + length evs1"]) simp_all
      qed
    qed
  qed
qed

lemma paginate_events:
  "paginate fuel e a c cur posts bar t = Some (evs, r) \<Longrightarrow>
     list_all (\<lambda>ev. scan_op (op_of ev)) evs"
proof (induction fuel arbitrary: cur posts bar t evs)
  case 0
  then show ?case by simp
next
  case (Suc fuel)
  from Suc.prems show ?case
  proof (cases rule: paginate_Suc_cases)
    case (fetch_failed errs err)
    then show ?thesis by (simp add: list_all_Failed)
  next
    case (scan_failed errs fd err)
    then show ?thesis by (simp add: list_all_Failed)
  next
    case (last_page errs fd posts')
    then show ?thesis by (simp add: list_all_Failed)
  next
    case (next_page errs fd posts' t' evs')
    with Suc.IH [OF next_page(4)] show ?thesis by (simp add: list_all_Failed)
  qed
qed

lemma tqdm_update_simps:
  "bar_disable (tqdm_update b) = bar_disable b"
  "bar_n (tqdm_update b) = (if bar_disable b then bar_n b else bar_n b + 1)"
  by (simp_all add: tqdm_update_def)

lemma paginate_bar:
  "paginate fuel e a c cur posts bar t = Some (evs, Inr (posts', bar')) \<Longrightarrow>
     bar_disable bar' = bar_disable bar
     \<and> bar_n bar' = (if bar_disable bar then bar_n bar
                    else bar_n bar + length (filter page_fetched evs))"
proof (induction fuel arbitrary: cur posts bar t evs)
  case 0
  then show ?case by simp
next
  case (Suc fuel)
  from Suc.prems show ?case
  proof (cases rule: paginate_Suc_cases)
    case (fetch_failed errs err)
    then show ?thesis by simp
  next
    case (scan_failed errs fd err)
    then show ?thesis by simp
  next
    case (last_page errs fd posts'')
    then show ?thesis by (simp add: filter_Failed tqdm_update_simps)
  next
    case (next_page errs fd posts'' t' evs')
    with Suc.IH [OF next_page(4)] show ?thesis by (simp add: filter_Failed tqdm_update_simps)
  qed
qed

subsection \<open>The two parts of a run\<close>

lemma scan_phase_cases:
  assumes run: "scan_phase fuel e a t = Some (evs, r)"
  obtains
    (login_failed) err where
      "evs = [Failed (ClientLogin (handle a) (token a)) err]" "r = Inl err"
  | (setup_failed) err where
      "evs = [Done (ClientLogin (handle a) (token a))]" "r = Inl err"
  | (paginated) c t' evs' where
      "evs = Done (ClientLogin (handle a) (token a)) # evs'"
      "paginate fuel e a c None [] (tqdm_init (quiet a)) t' = Some (evs', r)"
proof -
  let ?login = "ClientLogin (handle a) (token a)"
  obtain evs1 r1 where p1: "perform e ?login t = (evs1, r1)" by (cases "perform e ?login t")
  show thesis
  proof (cases r1)
    case (Inl err)
    with p1 have "evs1 = [Failed ?login err]" by (auto dest: perform_Inl)
    moreover from run have "evs = evs1" "r = Inl err" by (simp_all add: scan_phase_def p1 Inl)
    ultimately show thesis by (intro login_failed [of err]) simp_all
  next
    case (Inr u)
    with p1 have evs1: "evs1 = [Done ?login]" by (auto dest: perform_Inr)
    show thesis
    proof (cases "cutoff_of e (days_old a)")
      case (Inl err)
      from run have "evs = evs1" "r = Inl err" by (simp_all add: scan_phase_def p1 Inr Inl)
      with evs1 show thesis by (intro setup_failed [of err]) simp_all
    next
      case co: (Inr co)
      show thesis
      proof (cases "parse_bound e (after a)")
        case (Inl err)
        from run have "evs = evs1" "r = Inl err" by (simp_all add: scan_phase_def p1 Inr co Inl)
        with evs1 show thesis by (intro setup_failed [of err]) simp_all
      next
        case adt: (Inr adt)
        show thesis
        proof (cases "parse_bound e (before a)")
          case (Inl err)
          from run have "evs = evs1" "r = Inl err"
            by (simp_all add: scan_phase_def p1 Inr co adt Inl)
          with evs1 show thesis by (intro setup_failed [of err]) simp_all
        next
          case bdt: (Inr bdt)
          show thesis
          proof (cases "prepare_matchers e (match_patterns a) (use_regex a)")
            case (Inl err)
            from run have "evs = evs1" "r = Inl err"
              by (simp_all add: scan_phase_def p1 Inr co adt bdt Inl)
            with evs1 show thesis by (intro setup_failed [of err]) simp_all
          next
            case pats: (Inr pats)
            let ?c = "\<lparr>cutoff = co, after_dt = adt, before_dt = bdt, compiled_patterns = pats\<rparr>"
            let ?pg = "paginate fuel e a ?c None [] (tqdm_init (quiet a)) (t + length evs1)"
            from run have
              "(case ?pg of None \<Rightarrow> None | Some (evs', r) \<Rightarrow> Some (evs1 @ evs', r)) = Some (evs, r)"
              by (simp add: scan_phase_def p1 Inr co adt bdt pats)
            then obtain evs' where "?pg = Some (evs', r)" and "evs = evs1 @ evs'"
              by (cases ?pg) (auto split: prod.splits)
            with evs1 show thesis
              by (intro paginated [of evs' ?c "t + length evs1"]) simp_all
          qed
        qed
      qed
    qed
  qed
qed

lemma scan_phase_events:
  assumes "scan_phase fuel e a t = Some (evs, r)"
  shows "list_all (\<lambda>ev. scan_op (op_of ev)) evs"
  using assms
proof (cases rule: scan_phase_cases)
  case (login_failed err)
  then show ?thesis by simp
next
  case (setup_failed err)
  then show ?thesis by simp
next
  case (paginated c t' evs')
  with paginate_events [OF paginated(2)] show ?thesis by simp
qed

lemma scan_phase_bar:
  assumes "scan_phase fuel e a t = Some (evs, Inr (posts, bar))"
  shows "bar_n bar = (if quiet a then 0 else length (filter page_fetched evs))"
  using assms
proof (cases rule: scan_phase_cases)
  case (login_failed err)
  then show ?thesis by simp
next
  case (setup_failed err)
  then show ?thesis by simp
next
  case (paginated c t' evs')
  with paginate_bar [OF paginated(2)] show ?thesis by (simp add: tqdm_init_def)
qed

lemma output_phase_cases:
  assumes run: "output_phase e a posts bar t = (evs, r)"
  obtains
    (nothing)
      "posts = []" "evs = []"
      "r = Inr \<lparr>scanned = bar_n bar * 50, matched = 0, deleted = 0, failed = 0\<rparr>"
  | (backup_open_failed) path err where
      "posts \<noteq> []" "\<not> preview_only a" "evs = [Failed (OpenAppend BackupFh path) err]"
      "r = Inl err"
  | (log_open_failed) bpath lpath err where
      "posts \<noteq> []"
      "evs = (if preview_only a then [] else [Done (OpenAppend BackupFh bpath)])
               @ [Failed (OpenAppend LogFh lpath) err]"
      "r = Inl err"
  | (log_close_failed) bpath lpath t' evs' r' err where
      "posts \<noteq> []" "process_loop e a posts 0 0 t' = (evs', r')"
      "evs = (if preview_only a then [] else [Done (OpenAppend BackupFh bpath)])
               @ Done (OpenAppend LogFh lpath) # evs' @ [Failed (Close LogFh) err]"
      "r = Inl err"
  | (loop_failed) bpath lpath t' evs' err where
      "posts \<noteq> []" "process_loop e a posts 0 0 t' = (evs', Inl err)"
      "evs = (if preview_only a then [] else [Done (OpenAppend BackupFh bpath)])
               @ Done (OpenAppend LogFh lpath) # evs' @ [Done (Close LogFh)]"
      "r = Inl err"
  | (backup_close_failed) bpath lpath t' evs' d f err where
      "posts \<noteq> []" "\<not> preview_only a" "process_loop e a posts 0 0 t' = (evs', Inr (d, f))"
      "evs = Done (OpenAppend BackupFh bpath) # Done (OpenAppend LogFh lpath) # evs'
               @ [Done (Close LogFh), Failed (Close BackupFh) err]"
      "r = Inl err"
  | (completed) bpath lpath t' evs' d f where
      "posts \<noteq> []" "process_loop e a posts 0 0 t' = (evs', Inr (d, f))"
      "evs = (if preview_only a then [] else [Done (OpenAppend BackupFh bpath)])
               @ Done (OpenAppend LogFh lpath) # evs'
               @ Done (Close LogFh) # (if preview_only a then [] else [Done (Close BackupFh)])"
      "r = Inr \<lparr>scanned = bar_n bar * 50, matched = length posts, deleted = d, failed = f\<rparr>"
proof (cases "posts = []")
  case True
  with run have "evs = []"
    and "r = Inr \<lparr>scanned = bar_n bar * 50, matched = 0, deleted = 0, failed = 0\<rparr>"
    by (simp_all add: output_phase_def)
  with True show thesis by (rule nothing)
next
  case False
  define lpath where "lpath =
     (case log_file a of
        Some s \<Rightarrow> if s \<noteq> [] then s
          else if preview_only a then ''preview_log.txt'' else ''deleted_posts_log.txt''
      | None \<Rightarrow> if preview_only a then ''preview_log.txt'' else ''deleted_posts_log.txt'')"
  define bpath where "bpath =
     (case backup_file a of
        Some s \<Rightarrow> if s \<noteq> [] then s else ''deleted_posts_backup.jsonl''
      | None \<Rightarrow> ''deleted_posts_backup.jsonl'')"
  define ob where "ob =
     (if \<not> preview_only a then perform e (OpenAppend BackupFh bpath) t else ([], Inr ()))"
  define cb where "cb = (\<lambda>t'.
     if \<not> preview_only a then perform e (Close BackupFh) t' else ([], Inr ()))"
  obtain evs1 r1 where ob1: "ob = (evs1, r1)" by (cases ob)
  from run False have run':
    "(case ob of
        (evs1, Inl err) \<Rightarrow> (evs1, Inl err)
      | (evs1, Inr u1) \<Rightarrow>
          (case perform e (OpenAppend LogFh lpath) (t + length evs1) of
             (evs2, Inl err) \<Rightarrow> (evs1 @ evs2, Inl err)
           | (evs2, Inr u2) \<Rightarrow>
               (case process_loop e a posts 0 0 (t + length evs1 + length evs2) of
                  (evs3, r3) \<Rightarrow>
                    (case perform e (Close LogFh)
                            (t + length evs1 + length evs2 + length evs3) of
                       (evs4, Inl err) \<Rightarrow> (evs1 @ evs2 @ evs3 @ evs4, Inl err)
                     | (evs4, Inr u4) \<Rightarrow>
                         (case r3 of
                            Inl err \<Rightarrow> (evs1 @ evs2 @ evs3 @ evs4, Inl err)
                          | Inr (n_deleted, n_failed) \<Rightarrow>
                              (case cb (t + length evs1 + length evs2
                                          + length evs3 + length evs4) of
                                 (evs5, Inl err) \<Rightarrow>
                                   (evs1 @ evs2 @ evs3 @ evs4 @ evs5, Inl err)
                               | (evs5, Inr u5) \<Rightarrow>
                                   (evs1 @ evs2 @ evs3 @ evs4 @ evs5,
                                    Inr \<lparr>scanned = bar_n bar * 50,
                                         matched = length posts, deleted = n_deleted,
                                         failed = n_failed\<rparr>))))))) = (evs, r)"
    unfolding output_phase_def Let_def lpath_def bpath_def ob_def cb_def
    by (simp only: length_0_conv if_False)
  show thesis
  proof (cases r1)
    case (Inl err)
    with ob1 have "\<not> preview_only a" and "evs1 = [Failed (OpenAppend BackupFh bpath) err]"
      by (auto simp: ob_def dest: perform_Inl split: if_splits)
    moreover from run' ob1 Inl have "evs = evs1" "r = Inl err" by simp_all
    ultimately show thesis using False by (intro backup_open_failed [of bpath err]) simp_all
  next
    case (Inr u1)
    with ob1 have evs1:
      "evs1 = (if preview_only a then [] else [Done (OpenAppend BackupFh bpath)])"
      by (auto simp: ob_def dest: perform_Inr split: if_splits)
    obtain evs2 r2 where p2: "perform e (OpenAppend LogFh lpath) (t + length evs1) = (evs2, r2)"
      by (cases "perform e (OpenAppend LogFh lpath) (t + length evs1)")
    show thesis
    proof (cases r2)
      case (Inl err)
      with p2 have "evs2 = [Failed (OpenAppend LogFh lpath) err]" by (auto dest: perform_Inl)
      moreover from run' ob1 Inr p2 Inl have "evs = evs1 @ evs2" "r = Inl err" by simp_all
      ultimately show thesis using False evs1
        by (intro log_open_failed [of bpath lpath err]) simp_all
    next
      case r2: (Inr u2)
      with p2 have evs2: "evs2 = [Done (OpenAppend LogFh lpath)]" by (auto dest: perform_Inr)
      let ?t = "t + length evs1 + length evs2"
      obtain evs3 r3 where p3: "process_loop e a posts 0 0 ?t = (evs3, r3)"
        by (cases "process_loop e a posts 0 0 ?t")
      obtain evs4 r4 where p4: "perform e (Close LogFh) (?t + length evs3) = (evs4, r4)"
        by (cases "perform e (Close LogFh) (?t + length evs3)")
      show thesis
      proof (cases r4)
        case (Inl err)
        with p4 have "evs4 = [Failed (Close LogFh) err]" by (auto dest: perform_Inl)
        moreover from run' ob1 Inr p2 r2 p3 p4 Inl have
          "evs = evs1 @ evs2 @ evs3 @ evs4" "r = Inl err" by simp_all
        ultimately show thesis using False evs1 evs2 p3
          by (intro log_close_failed [of ?t evs3 r3 bpath lpath err]) simp_all
      next
        case r4: (Inr u4)
        with p4 have evs4: "evs4 = [Done (Close LogFh)]" by (auto dest: perform_Inr)
        show thesis
        proof (cases r3)
          case (Inl err)
          from run' ob1 Inr p2 r2 p3 p4 r4 Inl have
            "evs = evs1 @ evs2 @ evs3 @ evs4" "r = Inl err" by simp_all
          with False evs1 evs2 evs4 p3 Inl show thesis
            by (intro loop_failed [of ?t evs3 err bpath lpath]) simp_all
        next
          case r3: (Inr c)
          obtain d f where c: "c = (d, f)" by (cases c)
          obtain evs5 r5 where p5: "cb (?t + length evs3 + length evs4) = (evs5, r5)"
            by (cases "cb (?t + length evs3 + length evs4)")
          show thesis
          proof (cases r5)
            case (Inl err)
            with p5 have np: "\<not> preview_only a" and evs5: "evs5 = [Failed (Close BackupFh) err]"
              by (auto simp: cb_def dest: perform_Inl split: if_splits)
            from run' ob1 Inr p2 r2 p3 p4 r4 r3 c p5 Inl have
              "evs = evs1 @ evs2 @ evs3 @ evs4 @ evs5" "r = Inl err" by simp_all
            with False np evs1 evs2 evs4 evs5 p3 r3 c show thesis
              by (intro backup_close_failed [of ?t evs3 d f bpath lpath err]) simp_all
          next
            case r5: (Inr u5)
            with p5 have evs5:
              "evs5 = (if preview_only a then [] else [Done (Close BackupFh)])"
              by (auto simp: cb_def dest: perform_Inr split: if_splits)
            from run' ob1 Inr p2 r2 p3 p4 r4 r3 c p5 r5 have
              "evs = evs1 @ evs2 @ evs3 @ evs4 @ evs5"
              "r = Inr \<lparr>scanned = bar_n bar * 50, matched = length posts,
                        deleted = d, failed = f\<rparr>"
              by simp_all
            with False evs1 evs2 evs4 evs5 p3 r3 c show thesis
              by (intro completed [of ?t evs3 d f bpath lpath]) simp_all
          qed
        qed
      qed
    qed
  qed
qed

lemma process_posts_cases:
  assumes run: "process_posts fuel e a = Some (tr, res)"
  obtains
    (scan_raised) err where
      "scan_phase fuel e a 0 = Some (tr, Inl err)" "res = Inl err" "matched_posts fuel e a = []"
  | (scanned) evs posts bar evs' where
      "scan_phase fuel e a 0 = Some (evs, Inr (posts, bar))"
      "output_phase e a posts bar (length evs) = (evs', res)" "tr = evs @ evs'"
      "matched_posts fuel e a = posts"
proof (cases "scan_phase fuel e a 0")
  case None
  with run show thesis by (simp add: process_posts_def)
next
  case (Some sr)
  obtain evs r where sr: "sr = (evs, r)" by (cases sr)
  show thesis
  proof (cases r)
    case (Inl err)
    with run Some sr show thesis
      by (intro scan_raised [of err]) (simp_all add: process_posts_def matched_posts_def)
  next
    case (Inr pb)
    obtain posts bar where pb: "pb = (posts, bar)" by (cases pb)
    obtain evs' r' where out: "output_phase e a posts bar (length evs) = (evs', r')"
      by (cases "output_phase e a posts bar (length evs)")
    with run Some sr Inr pb show thesis
      by (intro scanned [of evs posts bar evs']) (simp_all add: process_posts_def matched_posts_def)
  qed
qed

subsection \<open>What the scanning part and the output part leave in the trace\<close>

lemma scan_event_quiet:
  assumes "scan_op (op_of ev)"
  shows "backup_written ev = None \<and> log_written ev = None \<and> settled ev = None
    \<and> \<not> delete_done ev \<and> \<not> delete_given_up ev \<and> \<not> backup_op (op_of ev)
    \<and> delete_rkey ev = None"
proof -
  from assms have
    "(\<exists>h p. op_of ev = ClientLogin h p) \<or> (\<exists>ac cu li. op_of ev = GetAuthorFeed ac cu li)"
    by (cases "op_of ev") simp_all
  then show ?thesis by (cases ev) (auto simp: delete_rkey_def)
qed

lemma scan_events_quiet:
  "list_all (\<lambda>ev. scan_op (op_of ev)) evs \<Longrightarrow>
     backup_lines evs = [] \<and> log_lines evs = [] \<and> settled_keys evs = []
     \<and> filter delete_done evs = [] \<and> filter delete_given_up evs = []
     \<and> list_all (\<lambda>ev. \<not> backup_op (op_of ev) \<and> delete_rkey ev = None) evs"
proof (induction evs)
  case Nil
  show ?case by (simp add: trace_simps)
next
  case (Cons ev evs)
  then have "scan_op (op_of ev)" and "list_all (\<lambda>ev. scan_op (op_of ev)) evs" by simp_all
  with Cons.IH scan_event_quiet [of ev] show ?case by (simp add: trace_simps)
qed

lemma output_phase_output_only:
  assumes "output_phase e a posts bar t = (evs, r)"
  shows "list_all (\<lambda>ev. output_op (op_of ev)) evs"
  using assms
proof (cases rule: output_phase_cases)
  case nothing
  then show ?thesis by simp
next
  case (backup_open_failed path err)
  then show ?thesis by simp
next
  case (log_open_failed bpath lpath err)
  then show ?thesis by simp
next
  case (log_close_failed bpath lpath t' evs' r' err)
  with process_loop_output_only [OF log_close_failed(2)] show ?thesis by simp
next
  case (loop_failed bpath lpath t' evs' err)
  with process_loop_output_only [OF loop_failed(2)] show ?thesis by simp
next
  case (backup_close_failed bpath lpath t' evs' d f err)
  with process_loop_output_only [OF backup_close_failed(3)] show ?thesis by simp
next
  case (completed bpath lpath t' evs' d f)
  with process_loop_output_only [OF completed(2)] show ?thesis by simp
qed

lemma output_phase_log_lines:
  assumes "output_phase e a posts bar t = (evs, r)"
  shows "prefix (log_lines evs) (map log_record_of posts)
     \<and> ((\<exists>c. r = Inr c) \<longrightarrow> log_lines evs = map log_record_of posts)"
  using assms
proof (cases rule: output_phase_cases)
  case nothing
  then show ?thesis by (simp add: trace_simps)
next
  case (backup_open_failed path err)
  then show ?thesis by (simp add: trace_simps)
next
  case (log_open_failed bpath lpath err)
  then show ?thesis by (simp add: trace_simps)
next
  case (log_close_failed bpath lpath t' evs' r' err)
  with process_loop_log_lines [OF log_close_failed(2)] show ?thesis by (simp add: trace_simps)
next
  case (loop_failed bpath lpath t' evs' err)
  with process_loop_log_lines [OF loop_failed(2)] show ?thesis by (simp add: trace_simps)
next
  case (backup_close_failed bpath lpath t' evs' d f err)
  with process_loop_log_lines [OF backup_close_failed(3)] show ?thesis by (simp add: trace_simps)
next
  case (completed bpath lpath t' evs' d f)
  with process_loop_log_lines [OF completed(2)] show ?thesis by (simp add: trace_simps)
qed

lemma output_phase_backup_lines:
  assumes "output_phase e a posts bar t = (evs, r)" and "\<not> preview_only a"
  shows "prefix (backup_lines evs) (map backup_entry_of posts)
     \<and> ((\<exists>c. r = Inr c) \<longrightarrow> backup_lines evs = map backup_entry_of posts)"
  using assms(1)
proof (cases rule: output_phase_cases)
  case nothing
  then show ?thesis by (simp add: trace_simps)
next
  case (backup_open_failed path err)
  then show ?thesis by (simp add: trace_simps)
next
  case (log_open_failed bpath lpath err)
  then show ?thesis by (simp add: trace_simps)
next
  case (log_close_failed bpath lpath t' evs' r' err)
  with process_loop_backup_lines [OF log_close_failed(2) assms(2)] show ?thesis
    by (simp add: trace_simps)
next
  case (loop_failed bpath lpath t' evs' err)
  with process_loop_backup_lines [OF loop_failed(2) assms(2)] show ?thesis
    by (simp add: trace_simps)
next
  case (backup_close_failed bpath lpath t' evs' d f err)
  with process_loop_backup_lines [OF backup_close_failed(3) assms(2)] show ?thesis
    by (simp add: trace_simps)
next
  case (completed bpath lpath t' evs' d f)
  with process_loop_backup_lines [OF completed(2) assms(2)] show ?thesis
    by (simp add: trace_simps)
qed

lemma output_phase_settled:
  assumes "output_phase e a posts bar t = (evs, r)" and "\<not> preview_only a"
  shows "prefix (settled_keys evs) (map (\<lambda>x. rkey_of (fst x)) posts)
     \<and> ((\<exists>c. r = Inr c) \<longrightarrow> settled_keys evs = map (\<lambda>x. rkey_of (fst x)) posts)"
  using assms(1)
proof (cases rule: output_phase_cases)
  case nothing
  then show ?thesis by (simp add: trace_simps)
next
  case (backup_open_failed path err)
  then show ?thesis by (simp add: trace_simps)
next
  case (log_open_failed bpath lpath err)
  then show ?thesis by (simp add: trace_simps)
next
  case (log_close_failed bpath lpath t' evs' r' err)
  with process_loop_settled [OF log_close_failed(2) assms(2)] show ?thesis
    by (simp add: trace_simps)
next
  case (loop_failed bpath lpath t' evs' err)
  with process_loop_settled [OF loop_failed(2) assms(2)] show ?thesis
    by (simp add: trace_simps)
next
  case (backup_close_failed bpath lpath t' evs' d f err)
  with process_loop_settled [OF backup_close_failed(3) assms(2)] show ?thesis
    by (simp add: trace_simps)
next
  case (completed bpath lpath t' evs' d f)
  with process_loop_settled [OF completed(2) assms(2)] show ?thesis
    by (simp add: trace_simps)
qed

lemma output_phase_write_ahead:
  assumes "output_phase e a posts bar t = (evs, r)"
  shows "write_ahead [] evs"
  using assms
proof (cases rule: output_phase_cases)
  case nothing
  then show ?thesis by (simp add: write_ahead_Nil)
next
  case (backup_open_failed path err)
  then show ?thesis by (simp add: write_ahead_Nil write_ahead_Cons delete_rkey_def)
next
  case (log_open_failed bpath lpath err)
  then show ?thesis by (simp add: write_ahead_Nil write_ahead_Cons delete_rkey_def)
next
  case (log_close_failed bpath lpath t' evs' r' err)
  with process_loop_write_ahead [OF log_close_failed(2), of "[]"] show ?thesis
    by (simp add: write_ahead_Nil write_ahead_Cons write_ahead_append delete_rkey_def
        backup_lines_Nil backup_lines_Cons)
next
  case (loop_failed bpath lpath t' evs' err)
  with process_loop_write_ahead [OF loop_failed(2), of "[]"] show ?thesis
    by (simp add: write_ahead_Nil write_ahead_Cons write_ahead_append delete_rkey_def
        backup_lines_Nil backup_lines_Cons)
next
  case (backup_close_failed bpath lpath t' evs' d f err)
  with process_loop_write_ahead [OF backup_close_failed(3), of "[]"] show ?thesis
    by (simp add: write_ahead_Nil write_ahead_Cons write_ahead_append delete_rkey_def
        backup_lines_Nil backup_lines_Cons)
next
  case (completed bpath lpath t' evs' d f)
  with process_loop_write_ahead [OF completed(2), of "[]"] show ?thesis
    by (simp add: write_ahead_Nil write_ahead_Cons write_ahead_append delete_rkey_def
        backup_lines_Nil backup_lines_Cons)
qed

lemma output_phase_preview:
  assumes "output_phase e a posts bar t = (evs, r)" and "preview_only a"
  shows "list_all (\<lambda>ev. \<not> backup_op (op_of ev) \<and> delete_rkey ev = None) evs
     \<and> (\<forall>c. r = Inr c \<longrightarrow> deleted c = 0 \<and> failed c = 0)"
  using assms(1)
proof (cases rule: output_phase_cases)
  case nothing
  then show ?thesis by simp
next
  case (backup_open_failed path err)
  with assms(2) show ?thesis by simp
next
  case (log_open_failed bpath lpath err)
  with assms(2) show ?thesis by (simp add: delete_rkey_def)
next
  case (log_close_failed bpath lpath t' evs' r' err)
  with process_loop_preview [OF log_close_failed(2) assms(2)] assms(2) show ?thesis
    by (simp add: delete_rkey_def)
next
  case (loop_failed bpath lpath t' evs' err)
  with process_loop_preview [OF loop_failed(2) assms(2)] assms(2) show ?thesis
    by (simp add: delete_rkey_def)
next
  case (backup_close_failed bpath lpath t' evs' d f err)
  with process_loop_preview [OF backup_close_failed(3) assms(2)] assms(2) show ?thesis
    by (simp add: delete_rkey_def)
next
  case (completed bpath lpath t' evs' d f)
  with process_loop_preview [OF completed(2) assms(2)] assms(2) show ?thesis
    by (simp add: delete_rkey_def)
qed

lemma output_phase_counts:
  assumes "output_phase e a posts bar t = (evs, Inr c)" and "\<not> preview_only a"
  shows "deleted c + failed c = matched c \<and> matched c = length posts
     \<and> deleted c = length (filter delete_done evs)
     \<and> failed c = length (filter delete_given_up evs)"
  using assms(1)
proof (cases rule: output_phase_cases)
  case nothing
  then show ?thesis by simp
next
  case (backup_open_failed path err)
  then show ?thesis by simp
next
  case (log_open_failed bpath lpath err)
  then show ?thesis by simp
next
  case (log_close_failed bpath lpath t' evs' r' err)
  then show ?thesis by simp
next
  case (loop_failed bpath lpath t' evs' err)
  then show ?thesis by simp
next
  case (backup_close_failed bpath lpath t' evs' d f err)
  with process_loop_counts [OF backup_close_failed(3) assms(2)] assms(2) show ?thesis
    by simp
next
  case (completed bpath lpath t' evs' d f)
  with process_loop_counts [OF completed(2) assms(2)] assms(2) show ?thesis
    by simp
qed

lemma output_phase_scanned:
  assumes "output_phase e a posts bar t = (evs, Inr c)"
  shows "scanned c = bar_n bar * 50"
  using assms by (cases rule: output_phase_cases) simp_all

subsection \<open>Sample runs\<close>

lemma sample_run_delete:
  "process_posts 5 (sample_env sample_delete_errors) (sample_params False False)
     = Some (sample_trace_delete,
             Inr \<lparr>scanned = 100, matched = 2, deleted = 1, failed = 1\<rparr>)"
  by code_simp

lemma sample_run_preview:
  "process_posts 5 (sample_env []) (sample_params True False)
     = Some (sample_trace_preview,
             Inr \<lparr>scanned = 100, matched = 2, deleted = 0, failed = 0\<rparr>)"
  by code_simp

lemma sample_matched_delete:
  "matched_posts 5 (sample_env sample_delete_errors) (sample_params False False) = sample_matched"
  by code_simp

lemma sample_matched_preview:
  "matched_posts 5 (sample_env []) (sample_params True False) = sample_matched"
  by code_simp

lemma scan_op_not_file_op: "scan_op x \<Longrightarrow> \<not> file_op x"
  by (cases x) simp_all

lemma process_loop_no_file_ops:
  "process_loop e a posts d f t = (evs, r) \<Longrightarrow> list_all (\<lambda>ev. \<not> file_op (op_of ev)) evs"
proof (induction posts arbitrary: d f t evs r)
  case Nil
  then show ?case by auto
next
  case (Cons x rest)
  from Cons.prems(1) show ?case
  proof (cases rule: process_loop_Cons_cases)
    case (log_failed err)
    then show ?thesis by simp
  next
    case (previewed t' evs')
    with Cons.IH [OF previewed(2)] show ?thesis by simp
  next
    case (backup_failed err)
    then show ?thesis by simp
  next
    case (deleted errs t' evs')
    with Cons.IH [OF deleted(2)] show ?thesis by (simp add: list_all_Failed)
  next
    case (given_up errs t' evs')
    with Cons.IH [OF given_up(2)] show ?thesis by (simp add: list_all_Failed)
  qed
qed

subsection \<open>Backup before deletion\<close>

text \<open>
  The calls are in the order the source gives them: in a run that is not a preview, a
  \<^verbatim>\<open>write\<close> of the entry of a post has returned before any delete request for that
  post is issued, and the entries handed over are those of the matched posts in their
  order.
\<close>

lemma backup_write_precedes_delete:
  assumes "\<not> preview_only a" and "process_posts fuel e a = Some (tr, res)"
  shows "(\<forall>i<length tr. \<forall>k. delete_rkey (tr ! i) = Some k \<longrightarrow>
            backup_lines (take i tr) \<noteq> []
            \<and> rkey_of (be_uri (last (backup_lines (take i tr)))) = k)
     \<and> prefix (backup_lines tr) (map backup_entry_of (matched_posts fuel e a))
     \<and> ((\<exists>r. res = Inr r) \<longrightarrow>
          backup_lines tr = map backup_entry_of (matched_posts fuel e a))"
  using assms(2)
proof (cases rule: process_posts_cases)
  case (scan_raised err)
  from scan_events_quiet [OF scan_phase_events [OF scan_raised(1)]]
  have "backup_lines tr = []" and "list_all (\<lambda>ev. delete_rkey ev = None) tr"
    by (simp_all add: list_all_iff)
  with write_ahead_no_deletes [of tr "[]"] scan_raised show ?thesis
    by (simp add: write_ahead_def)
next
  case (scanned evs posts bar evs')
  from scan_events_quiet [OF scan_phase_events [OF scanned(1)]]
  have quiet: "backup_lines evs = []" and nodel: "list_all (\<lambda>ev. delete_rkey ev = None) evs"
    by (simp_all add: list_all_iff)
  have "write_ahead [] tr"
    using write_ahead_no_deletes [OF nodel, of "[]"] output_phase_write_ahead [OF scanned(2)]
    by (simp add: scanned(3) write_ahead_append quiet)
  with output_phase_backup_lines [OF scanned(2) assms(1)] scanned quiet show ?thesis
    by (simp add: write_ahead_def backup_lines_append)
qed

text \<open>
  What is handed to \<^verbatim>\<open>write\<close> stays in the buffer of the handle, though: as long as no
  write fills the buffer, the file holds nothing before the close.
\<close>

lemma close_op_file_op: "close_op x \<Longrightarrow> file_op x"
  by (cases x) simp_all

lemma backup_store_before_close:
  assumes "\<And>t. \<not> write_through e t"
  shows "list_all (\<lambda>ev. \<not> close_op (op_of ev)) evs \<Longrightarrow>
     fst (backup_store e t disk buf evs) = disk"
  using assms by (induction e t disk buf evs rule: backup_store.induct) simp_all

lemma output_phase_closes_last:
  assumes "output_phase e a posts bar t = (evs, r)"
  shows "\<exists>pre cl. evs = pre @ cl
     \<and> list_all (\<lambda>ev. \<not> close_op (op_of ev)) pre
     \<and> list_all (\<lambda>ev. delete_rkey ev = None) cl"
proof -
  have loop: "list_all (\<lambda>ev. \<not> close_op (op_of ev)) evs'"
    if "process_loop e a posts 0 0 t' = (evs', r')" for t' evs' r'
    using process_loop_no_file_ops [OF that] close_op_file_op
    by (auto simp: list_all_iff)
  from assms show ?thesis
  proof (cases rule: output_phase_cases)
    case nothing
    then show ?thesis by simp
  next
    case (backup_open_failed path err)
    then show ?thesis
      by (intro exI [of _ evs, OF exI [of _ "[]"]]) simp
  next
    case (log_open_failed bpath lpath err)
    then show ?thesis
      by (intro exI [of _ evs, OF exI [of _ "[]"]]) simp
  next
    case (log_close_failed bpath lpath t' evs' r' err)
    with loop [OF log_close_failed(2)] show ?thesis
      by (intro exI [of _ "(if preview_only a then [] else [Done (OpenAppend BackupFh bpath)])
               @ Done (OpenAppend LogFh lpath) # evs'", OF exI [of _ "[Failed (Close LogFh) err]"]])
         (simp add: delete_rkey_def)
  next
    case (loop_failed bpath lpath t' evs' err)
    with loop [OF loop_failed(2)] show ?thesis
      by (intro exI [of _ "(if preview_only a then [] else [Done (OpenAppend BackupFh bpath)])
               @ Done (OpenAppend LogFh lpath) # evs'", OF exI [of _ "[Done (Close LogFh)]"]])
         (simp add: delete_rkey_def)
  next
    case (backup_close_failed bpath lpath t' evs' d f err)
    with loop [OF backup_close_failed(3)] show ?thesis
      by (intro exI [of _ "Done (OpenAppend BackupFh bpath) # Done (OpenAppend LogFh lpath) # evs'",
            OF exI [of _ "[Done (Close LogFh), Failed (Close BackupFh) err]"]])
         (simp add: delete_rkey_def)
  next
    case (completed bpath lpath t' evs' d f)
    with loop [OF completed(2)] show ?thesis
      by (intro exI [of _ "(if preview_only a then [] else [Done (OpenAppend BackupFh bpath)])
               @ Done (OpenAppend LogFh lpath) # evs'",
            OF exI [of _ "Done (Close LogFh)
               # (if preview_only a then [] else [Done (Close BackupFh)])"]])
         (simp add: delete_rkey_def)
  qed
qed

lemma file_empty_at_delete:
  assumes run: "process_posts fuel e a = Some (tr, res)"
    and buffered: "\<And>t. \<not> write_through e t"
    and pos: "i < length tr" and del: "delete_rkey (tr ! i) = Some k"
  shows "backup_on_disk e (take i tr) = []"
proof -
  have "\<exists>pre cl. tr = pre @ cl
     \<and> list_all (\<lambda>ev. \<not> close_op (op_of ev)) pre
     \<and> list_all (\<lambda>ev. delete_rkey ev = None) cl"
    using run
  proof (cases rule: process_posts_cases)
    case (scan_raised err)
    have "list_all (\<lambda>ev. \<not> close_op (op_of ev)) tr"
      using scan_phase_events [OF scan_raised(1)] scan_op_not_file_op close_op_file_op
      by (auto simp: list_all_iff)
    then show ?thesis by (intro exI [of _ tr, OF exI [of _ "[]"]]) simp
  next
    case (scanned evs posts bar evs')
    have scan: "list_all (\<lambda>ev. \<not> close_op (op_of ev)) evs"
      using scan_phase_events [OF scanned(1)] scan_op_not_file_op close_op_file_op
      by (auto simp: list_all_iff)
    from output_phase_closes_last [OF scanned(2)] obtain pre cl where
      "evs' = pre @ cl" "list_all (\<lambda>ev. \<not> close_op (op_of ev)) pre"
      "list_all (\<lambda>ev. delete_rkey ev = None) cl" by blast
    with scan scanned(3) show ?thesis
      by (intro exI [of _ "evs @ pre", OF exI [of _ cl]]) simp
  qed
  then obtain pre cl where tr: "tr = pre @ cl"
    and pre: "list_all (\<lambda>ev. \<not> close_op (op_of ev)) pre"
    and cl: "list_all (\<lambda>ev. delete_rkey ev = None) cl" by blast
  have "i < length pre"
  proof (rule ccontr)
    assume "\<not> i < length pre"
    with pos tr have "tr ! i = cl ! (i - length pre)" and "i - length pre < length cl"
      by (simp_all add: nth_append)
    with cl have "delete_rkey (tr ! i) = None" by (simp add: list_all_length)
    with del show False by simp
  qed
  then have "take i tr = take i pre" by (simp add: tr)
  moreover from pre have "list_all (\<lambda>ev. \<not> close_op (op_of ev)) (take i pre)"
    by (auto simp: list_all_iff dest: in_set_takeD)
  ultimately show ?thesis
    using backup_store_before_close [OF buffered, of "take i pre" 0 "[]" "[]"]
    by (simp add: backup_on_disk_def)
qed

text \<open>
  C1 says that the backup entry of a post is written to the backup file, and exists
  there, before the delete request for the post is issued. The code hands the entry to
  \<^verbatim>\<open>write\<close> before the request (\<open>backup_write_precedes_delete\<close>), but it neither
  flushes nor closes the handle before the request, so the entry is still in the buffer
  (\<open>file_empty_at_delete\<close>). In the deleting run over the sample feed the file is empty
  when the first request for \<open>post1\<close> is issued and when \<open>post3\<close> is deleted, though
  \<^verbatim>\<open>write\<close> has returned for both entries. And when the close of the backup file
  raises, both posts have been deleted and the file holds neither entry.
\<close>

theorem backup_entry_not_in_file_at_delete:
  "process_posts 5 (sample_env sample_delete_errors) (sample_params False False)
     = Some (sample_trace_delete,
             Inr \<lparr>scanned = 100, matched = 2, deleted = 1, failed = 1\<rparr>)
   \<and> delete_rkey (sample_trace_delete ! 7) = Some ''k1''
   \<and> backup_lines (take 7 sample_trace_delete) = [backup_entry_of (sample_matched ! 0)]
   \<and> backup_on_disk (sample_env sample_delete_errors) (take 7 sample_trace_delete) = []
   \<and> delete_done (sample_trace_delete ! 13)
   \<and> backup_lines (take 13 sample_trace_delete) = map backup_entry_of sample_matched
   \<and> backup_on_disk (sample_env sample_delete_errors) (take 13 sample_trace_delete) = []
   \<and> backup_on_disk (sample_env sample_delete_errors) sample_trace_delete
       = map backup_entry_of sample_matched
   \<and> process_posts 5 (sample_env [(12, OSError)]) (sample_params False False)
       = Some (sample_trace_lost, Inl OSError)
   \<and> length (filter delete_done sample_trace_lost) = 2
   \<and> backup_on_disk (sample_env [(12, OSError)]) sample_trace_lost = []"
  by code_simp

subsection \<open>Preview runs\<close>

text \<open>
  C3: a preview run issues no open, write or close of the backup file and no delete
  request, and a result it returns has \<open>deleted = 0\<close> and \<open>failed = 0\<close>.
\<close>

theorem preview_leaves_backup_and_posts_alone:
  assumes "preview_only a" and "process_posts fuel e a = Some (tr, res)"
  shows "list_all (\<lambda>ev. \<not> backup_op (op_of ev) \<and> delete_rkey ev = None) tr
     \<and> (\<forall>r. res = Inr r \<longrightarrow> deleted r = 0 \<and> failed r = 0)"
  using assms(2)
proof (cases rule: process_posts_cases)
  case (scan_raised err)
  with scan_events_quiet [OF scan_phase_events [OF scan_raised(1)]] show ?thesis by simp
next
  case (scanned evs posts bar evs')
  with scan_events_quiet [OF scan_phase_events [OF scanned(1)]]
    output_phase_preview [OF scanned(2) assms(1)]
  show ?thesis by simp
qed

theorem preview_leaves_backup_and_posts_alone_witness:
  "preview_only (sample_params True False)
   \<and> process_posts 5 (sample_env []) (sample_params True False)
       = Some (sample_trace_preview,
               Inr \<lparr>scanned = 100, matched = 2, deleted = 0, failed = 0\<rparr>)
   \<and> list_all (\<lambda>ev. \<not> backup_op (op_of ev) \<and> delete_rkey ev = None) sample_trace_preview"
proof -
  have h1: "preview_only (sample_params True False)"
    by (simp add: sample_params_def)
  from preview_leaves_backup_and_posts_alone [OF h1 sample_run_preview] h1 sample_run_preview
  show ?thesis by simp
qed

subsection \<open>The counters\<close>

text \<open>
  C4: the result of a run that is not a preview satisfies \<open>deleted + failed = matched\<close>,
  \<open>matched\<close> is the number of posts the filter selected, \<open>deleted\<close> counts the delete
  requests that succeeded and \<open>failed\<close> the deletions given up after the last attempt.
\<close>

theorem deleted_plus_failed_is_matched:
  assumes "\<not> preview_only a" and "process_posts fuel e a = Some (tr, Inr r)"
  shows "deleted r + failed r = matched r
     \<and> matched r = length (matched_posts fuel e a)
     \<and> deleted r = length (filter delete_done tr)
     \<and> failed r = length (filter delete_given_up tr)"
  using assms(2)
proof (cases rule: process_posts_cases)
  case (scan_raised err)
  then show ?thesis by simp
next
  case (scanned evs posts bar evs')
  with scan_events_quiet [OF scan_phase_events [OF scanned(1)]]
    output_phase_counts [OF scanned(2) assms(1)]
  show ?thesis by simp
qed

theorem deleted_plus_failed_is_matched_witness:
  "\<not> preview_only (sample_params False False)
   \<and> process_posts 5 (sample_env sample_delete_errors) (sample_params False False)
       = Some (sample_trace_delete,
               Inr \<lparr>scanned = 100, matched = 2, deleted = 1, failed = 1\<rparr>)
   \<and> length (filter delete_done sample_trace_delete) = 1
   \<and> length (filter delete_given_up sample_trace_delete) = 1
   \<and> length (matched_posts 5 (sample_env sample_delete_errors) (sample_params False False)) = 2"
proof -
  have h1: "\<not> preview_only (sample_params False False)"
    by (simp add: sample_params_def)
  from deleted_plus_failed_is_matched [OF h1 sample_run_delete] h1 sample_run_delete
  show ?thesis by simp
qed

subsection \<open>Scanning ends before output begins\<close>

lemma scan_item_appends:
  "scan_item e a c posts p = Inr r \<Longrightarrow> r = posts \<or> (\<exists>pt. r = posts @ [(uri p, p, pt)])"
  by (auto simp: scan_item_def Let_def split: sum.splits if_splits)

lemma scan_items_keeps_order:
  "scan_items e a c posts ps = Inr r \<Longrightarrow>
     \<exists>sel. r = posts @ sel \<and> subseq (map (\<lambda>x. fst (snd x)) sel) ps"
proof (induction ps arbitrary: posts)
  case Nil
  then show ?case by simp
next
  case (Cons p ps)
  then obtain posts' where one: "scan_item e a c posts p = Inr posts'"
    and rest: "scan_items e a c posts' ps = Inr r"
    by (auto split: sum.splits)
  from Cons.IH [OF rest] obtain sel where
    sel: "r = posts' @ sel" "subseq (map (\<lambda>x. fst (snd x)) sel) ps" by blast
  from scan_item_appends [OF one] show ?case
  proof
    assume "posts' = posts"
    with sel show ?thesis by (intro exI [of _ sel]) (simp add: list_emb_Cons)
  next
    assume "\<exists>pt. posts' = posts @ [(uri p, p, pt)]"
    then obtain pt where "posts' = posts @ [(uri p, p, pt)]" ..
    with sel show ?thesis by (intro exI [of _ "(uri p, p, pt) # sel"]) simp
  qed
qed

text \<open>
  C10: the trace of a run splits into the trace of the scanning part, which holds the
  login and the feed requests only, and a rest that holds no feed request: every log
  write, backup write and delete request comes after the last page was fetched and the
  list of matched posts was complete. The log records, the backup entries and the
  settled deletions follow the order of that list, and cover all of it when the run
  returns a result. The list itself keeps the order in which the service returned the
  posts (\<open>scan_items_keeps_order\<close>).
\<close>

theorem scan_completes_before_output:
  assumes "process_posts fuel e a = Some (tr, res)"
  shows "\<exists>scan out r1.
      scan_phase fuel e a 0 = Some (scan, r1) \<and> tr = scan @ out
      \<and> list_all (\<lambda>ev. scan_op (op_of ev)) scan
      \<and> list_all (\<lambda>ev. output_op (op_of ev)) out
      \<and> prefix (log_lines out) (map log_record_of (matched_posts fuel e a))
      \<and> (\<not> preview_only a \<longrightarrow>
           prefix (backup_lines out) (map backup_entry_of (matched_posts fuel e a))
           \<and> prefix (settled_keys out) (map (\<lambda>x. rkey_of (fst x)) (matched_posts fuel e a)))
      \<and> ((\<exists>r. res = Inr r) \<longrightarrow>
           log_lines out = map log_record_of (matched_posts fuel e a)
           \<and> (\<not> preview_only a \<longrightarrow>
                backup_lines out = map backup_entry_of (matched_posts fuel e a)
                \<and> settled_keys out = map (\<lambda>x. rkey_of (fst x)) (matched_posts fuel e a)))"
  using assms
proof (cases rule: process_posts_cases)
  case (scan_raised err)
  with scan_phase_events [OF scan_raised(1)] show ?thesis
    by (intro exI [of _ tr, OF exI [of _ "[]", OF exI [of _ "Inl err"]]])
      (simp add: trace_simps)
next
  case (scanned evs posts bar evs')
  show ?thesis
  proof (intro exI [of _ evs, OF exI [of _ evs', OF exI [of _ "Inr (posts, bar)"]]] conjI impI)
    show "scan_phase fuel e a 0 = Some (evs, Inr (posts, bar))" by (rule scanned(1))
    show "tr = evs @ evs'" by (rule scanned(3))
    show "list_all (\<lambda>ev. scan_op (op_of ev)) evs" by (rule scan_phase_events [OF scanned(1)])
    show "list_all (\<lambda>ev. output_op (op_of ev)) evs'"
      by (rule output_phase_output_only [OF scanned(2)])
    show "prefix (log_lines evs') (map log_record_of (matched_posts fuel e a))"
      using output_phase_log_lines [OF scanned(2)] scanned(4) by simp
    show "prefix (backup_lines evs') (map backup_entry_of (matched_posts fuel e a))"
      if "\<not> preview_only a"
      using output_phase_backup_lines [OF scanned(2) that] scanned(4) by simp
    show "prefix (settled_keys evs') (map (\<lambda>x. rkey_of (fst x)) (matched_posts fuel e a))"
      if "\<not> preview_only a"
      using output_phase_settled [OF scanned(2) that] scanned(4) by simp
    show "log_lines evs' = map log_record_of (matched_posts fuel e a)" if "\<exists>r. res = Inr r"
      using output_phase_log_lines [OF scanned(2)] scanned(4) that by simp
    show "backup_lines evs' = map backup_entry_of (matched_posts fuel e a)"
      if "\<exists>r. res = Inr r" and "\<not> preview_only a"
      using output_phase_backup_lines [OF scanned(2) that(2)] scanned(4) that(1) by simp
    show "settled_keys evs' = map (\<lambda>x. rkey_of (fst x)) (matched_posts fuel e a)"
      if "\<exists>r. res = Inr r" and "\<not> preview_only a"
      using output_phase_settled [OF scanned(2) that(2)] scanned(4) that(1) by simp
  qed
qed

theorem scan_completes_before_output_witness:
  "process_posts 5 (sample_env sample_delete_errors) (sample_params False False)
     = Some (sample_trace_delete,
             Inr \<lparr>scanned = 100, matched = 2, deleted = 1, failed = 1\<rparr>)
   \<and> (\<exists>scan out r1.
        scan_phase 5 (sample_env sample_delete_errors) (sample_params False False) 0
          = Some (scan, r1)
        \<and> sample_trace_delete = scan @ out
        \<and> list_all (\<lambda>ev. scan_op (op_of ev)) scan
        \<and> list_all (\<lambda>ev. output_op (op_of ev)) out
        \<and> log_lines out = map log_record_of sample_matched
        \<and> backup_lines out = map backup_entry_of sample_matched
        \<and> settled_keys out = map (\<lambda>x. rkey_of (fst x)) sample_matched)"
proof -
  have h1: "\<not> preview_only (sample_params False False)"
    by (simp add: sample_params_def)
  from scan_completes_before_output [OF sample_run_delete] h1 sample_matched_delete
  have "\<exists>scan out r1.
        scan_phase 5 (sample_env sample_delete_errors) (sample_params False False) 0
          = Some (scan, r1)
        \<and> sample_trace_delete = scan @ out
        \<and> list_all (\<lambda>ev. scan_op (op_of ev)) scan
        \<and> list_all (\<lambda>ev. output_op (op_of ev)) out
        \<and> log_lines out = map log_record_of sample_matched
        \<and> backup_lines out = map backup_entry_of sample_matched
        \<and> settled_keys out = map (\<lambda>x. rkey_of (fst x)) sample_matched"
    by (elim exE conjE) (simp, blast)
  with sample_run_delete show ?thesis by simp
qed

subsection \<open>Timestamps\<close>

lemma normalize_never_raises: "\<exists>u. normalize_indexed_at e d = Inr u"
  by (simp add: normalize_indexed_at_def split: sum.split)

lemma normalize_aware:
  assumes "utcoffset d = Some k" and "0 \<le> wall d - k" and "wall d - k \<le> dt_max"
  shows "normalize_indexed_at e d = Inr (wall d - k)"
  using assms by (simp add: normalize_indexed_at_def astimezone_utc_def minus_offset_def)

text \<open>
  A naive value in a zone of constant offset \<open>k\<close>, later than the first day of year 1 and
  with all its shifted readings in range, is shifted by \<open>k\<close>.
\<close>

lemma normalize_naive:
  assumes "utcoffset d = None" and "\<And>u. local_utcoffset e u = k"
    and "usec_per_day \<le> wall d" and "wall d \<le> dt_max"
    and "0 \<le> wall d + k" and "wall d + k \<le> dt_max"
    and "0 \<le> wall d - k" and "wall d - k \<le> dt_max"
  shows "normalize_indexed_at e d = Inr (wall d - k)"
proof -
  have day: "0 \<le> usec_per_day" by (simp add: usec_per_day_def)
  have l1: "local_time e (wall d) = Inr (wall d + k)"
    using assms by (simp add: local_time_def)
  have l2: "local_time e (wall d - k) = Inr (wall d)"
    using assms day by (simp add: local_time_def)
  have l3: "local_time e (wall d - k - usec_per_day) = Inr (wall d - usec_per_day)"
    using assms day by (simp add: local_time_def)
  have "local_to_utc e (wall d) = Inr (wall d - k)"
    by (simp add: local_to_utc_def l1 l2 l3 Let_def)
  with assms show ?thesis
    by (simp add: normalize_indexed_at_def astimezone_utc_def minus_offset_def)
qed

text \<open>
  On the first day of year 1 the clock reading one day earlier is out of range:
  \<^verbatim>\<open>astimezone\<close> raises ValueError, and the fallback of lines 93 and 94 keeps the
  reading (here 0001-01-01T12:00:00).
\<close>

lemma normalize_naive_first_day:
  "astimezone_utc (sample_env []) \<lparr>wall = 43200000000, utcoffset = None\<rparr> = Inl ValueError
   \<and> normalize_indexed_at (sample_env []) \<lparr>wall = 43200000000, utcoffset = None\<rparr>
       = Inr 43200000000"
  by code_simp

text \<open>
  C5 says that a timestamp with an offset is converted to UTC (\<open>normalize_aware\<close>),
  that the step never raises (\<open>normalize_never_raises\<close>), and that a timestamp without
  an offset is taken as UTC with its clock reading unchanged. The fallback of lines 93
  and 94 would do the last, but \<^verbatim>\<open>astimezone\<close> does not raise on a naive value: it
  takes it as local time (\<open>normalize_naive\<close>). With the system one hour east of UTC, the
  naive reading 2024-01-01T12:00:00 becomes 2024-01-01T11:00:00 UTC, and \<open>post4\<close>, whose
  reading lies after the cutoff, is moved before it and selected.
\<close>

theorem naive_timestamp_shifted_by_local_offset:
  "local_utcoffset (sample_env []) 63839707200000000 = 3600000000
   \<and> normalize_indexed_at (sample_env []) \<lparr>wall = 63839707200000000, utcoffset = None\<rparr>
       = Inr 63839703600000000
   \<and> dateutil_isoparse (sample_env []) (indexed_at post4)
       = Inr \<lparr>wall = 63842257800000000, utcoffset = None\<rparr>
   \<and> cutoff sample_criteria < 63842257800000000
   \<and> scan_item (sample_env []) (sample_params False False) sample_criteria [] post4
       = Inr [(uri post4, post4, 63842254200000000)]"
  by code_simp

subsection \<open>Reposts\<close>

lemma is_repost_without_embed: "embed p = None \<Longrightarrow> is_repost_of p = Inr False"
  by (simp add: is_repost_of_def getattr_or_none_def)

lemma is_repost_dict:
  "embed p = Some (PyDict items) \<Longrightarrow>
     is_repost_of p = Inr (map_of items ''$type'' = Some (PyStr repost_view_type))"
  by (cases items) (auto simp: is_repost_of_def getattr_or_none_def split: option.splits)

lemma is_repost_object:
  "embed p = Some (PyObject attrs) \<Longrightarrow>
     is_repost_of p =
       (if map_of attrs ''$type'' = None then Inr False
        else (case map_of attrs ''type'' of
                None \<Rightarrow> Inl AttributeError
              | Some v \<Rightarrow> Inr (v = PyStr repost_view_type)))"
  by (auto simp: is_repost_of_def getattr_or_none_def split: option.splits)

text \<open>
  C6 says that the repost flag is true exactly when the embed declares the type
  \<^verbatim>\<open>app.bsky.embed.record#view\<close>, for an embed object as for a dict. For a dict the
  code does so (\<open>is_repost_dict\<close>). For an object it tests for an attribute named
  \<^verbatim>\<open>$type\<close> and then reads the attribute \<^verbatim>\<open>type\<close>: an object whose \<^verbatim>\<open>$type\<close> is
  the repost view type and that has no \<^verbatim>\<open>type\<close> raises AttributeError, and an
  object that carries the type under another attribute name is not a repost.
\<close>

theorem object_embed_repost_not_recognised:
  "is_repost_of (post1\<lparr>embed := Some (PyObject [(''$type'', PyStr repost_view_type)])\<rparr>)
     = Inl AttributeError
   \<and> is_repost_of (post1\<lparr>embed := Some (PyObject [(''py_type'', PyStr repost_view_type)])\<rparr>)
     = Inr False
   \<and> is_repost_of (post1\<lparr>embed := Some (PyDict [(''$type'', PyStr repost_view_type)])\<rparr>)
     = Inr True"
  by code_simp

subsection \<open>The filter\<close>

lemma str_contains_sublist: "str_contains s needle = sublist needle s"
  by (induction s) (simp_all add: sublist_Cons_right)

lemma compile_all_shape:
  "compile_all e ps = Inr cs \<Longrightarrow> cs = map (\<lambda>p. Regex p True) ps"
  by (induction ps arbitrary: cs) (auto split: option.splits sum.splits)

lemma prepare_matchers_shape:
  "prepare_matchers e ps rx = Inr cs \<Longrightarrow>
     cs = (if rx then map (\<lambda>p. Regex p True) ps else map Keyword ps)"
  by (auto simp: prepare_matchers_def dest: compile_all_shape split: if_splits)

lemma any_search_regexes:
  "any_search e (map (\<lambda>p. Regex p ic) ps) s = Inr (\<exists>p \<in> set ps. re_search e p ic s)"
  by (induction ps) simp_all

lemma any_keyword_keywords:
  "any_keyword e (map Keyword ps) s
     = Inr (\<exists>p \<in> set ps. sublist (str_lower e p) (str_lower e s))"
  by (induction ps) (simp_all add: str_contains_sublist)

lemma is_reply_of_iff: "is_reply_of p = (\<exists>v. reply p = Some v \<and> v \<noteq> PyNone)"
  by (simp add: is_reply_of_def getattr_or_none_def split: option.split)

text \<open>
  The decision of lines 90 to 126 for a post whose timestamp carries an offset and whose
  embed is absent or a dict, with the matchers of lines 71 to 76: the post is appended
  exactly when its UTC time is before the cutoff, it is not an excluded reply or repost,
  it lies within the (inclusive) bounds that are set, and the pattern list is empty or
  some pattern matches its text, by a search that ignores case under \<open>use_regex\<close> and by
  a substring test on the lowered strings otherwise.
\<close>

lemma selected_iff_criteria:
  assumes parse: "dateutil_isoparse e (indexed_at p) = Inr d"
    and aware: "utcoffset d = Some k" "0 \<le> wall d - k" "wall d - k \<le> dt_max"
    and tagged: "embed p = None \<or> (\<exists>items. embed p = Some (PyDict items))"
    and pats: "prepare_matchers e ps (use_regex a) = Inr (compiled_patterns c)"
  shows "scan_item e a c posts p =
     Inr (if wall d - k < cutoff c
             \<and> ((\<exists>v. reply p = Some v \<and> v \<noteq> PyNone) \<longrightarrow> include_replies a)
             \<and> ((\<exists>items. embed p = Some (PyDict items)
                    \<and> map_of items ''$type'' = Some (PyStr repost_view_type))
                  \<longrightarrow> include_reposts a)
             \<and> (\<forall>lo. after_dt c = Some lo \<longrightarrow> lo \<le> wall d - k)
             \<and> (\<forall>hi. before_dt c = Some hi \<longrightarrow> wall d - k \<le> hi)
             \<and> (ps = []
                 \<or> (\<exists>q \<in> set ps.
                       if use_regex a then re_search e q True (post_text p)
                       else sublist (str_lower e q) (str_lower e (post_text p))))
          then posts @ [(uri p, p, wall d - k)] else posts)"
proof -
  have norm: "normalize_indexed_at e d = Inr (wall d - k)"
    using aware by (rule normalize_aware)
  have repost: "is_repost_of p
      = Inr (\<exists>items. embed p = Some (PyDict items)
               \<and> map_of items ''$type'' = Some (PyStr repost_view_type))"
    using tagged by (auto simp: is_repost_without_embed is_repost_dict)
  have rng: "in_range c (wall d - k)
      = ((\<forall>lo. after_dt c = Some lo \<longrightarrow> lo \<le> wall d - k)
         \<and> (\<forall>hi. before_dt c = Some hi \<longrightarrow> wall d - k \<le> hi))"
    by (auto simp: in_range_def Let_def split: option.splits)
  have pat: "matched_text e a c (post_text p)
      = Inr (ps = []
             \<or> (\<exists>q \<in> set ps.
                   if use_regex a then re_search e q True (post_text p)
                   else sublist (str_lower e q) (str_lower e (post_text p))))"
    using prepare_matchers_shape [OF pats]
    by (cases "ps = []") (simp_all add: matched_text_def any_search_regexes any_keyword_keywords)
  define rp where "rp = (\<exists>items. embed p = Some (PyDict items)
               \<and> map_of items ''$type'' = Some (PyStr repost_view_type))"
  define rl where "rl = (\<exists>v. reply p = Some v \<and> v \<noteq> PyNone)"
  define inr where "inr = ((\<forall>lo. after_dt c = Some lo \<longrightarrow> lo \<le> wall d - k)
         \<and> (\<forall>hi. before_dt c = Some hi \<longrightarrow> wall d - k \<le> hi))"
  define mt where "mt = (ps = []
             \<or> (\<exists>q \<in> set ps.
                   if use_regex a then re_search e q True (post_text p)
                   else sublist (str_lower e q) (str_lower e (post_text p))))"
  have "scan_item e a c posts p =
     (if wall d - k < cutoff c then
        (if (rl \<and> \<not> include_replies a) \<or> (rp \<and> \<not> include_reposts a) then Inr posts
         else if inr \<and> mt then Inr (posts @ [(uri p, p, wall d - k)]) else Inr posts)
      else Inr posts)"
    unfolding rp_def rl_def inr_def mt_def
    by (simp add: scan_item_def parse norm repost rng pat is_reply_of_iff Let_def
        del: ex_simps all_simps cong: if_cong)
  also have "\<dots> = Inr (if wall d - k < cutoff c \<and> (rl \<longrightarrow> include_replies a)
             \<and> (rp \<longrightarrow> include_reposts a) \<and> inr \<and> mt
          then posts @ [(uri p, p, wall d - k)] else posts)"
    by auto
  finally show ?thesis
    unfolding rp_def rl_def inr_def mt_def by (simp only: conj_assoc)
qed

text \<open>
  C2 says that a post is matched exactly when it is before the cutoff, is not an excluded
  reply or repost, lies within the bounds and matches a pattern. The code decides so
  for a post whose timestamp carries an offset and whose embed is absent or a dict
  (\<open>selected_iff_criteria\<close>). But it takes the repost flag from lines 103 to 108 and the
  time from lines 91 to 94, which miss an object embed and shift a timestamp without
  offset. With replies and reposts excluded, of the feed \<open>post6\<close>, \<open>post7\<close>, \<open>post5\<close>,
  \<open>post4\<close> the run leaves out the reply \<open>post6\<close> and the dict repost \<open>post7\<close>, but it
  matches the repost \<open>post5\<close> and \<open>post4\<close>, whose time 2024-01-31T00:30:00 is after the
  cutoff 2024-01-31T00:00:00, and the deleting run deletes both.
\<close>

theorem repost_and_late_post_matched:
  "include_replies (sample_params False False) = False
   \<and> include_reposts (sample_params False False) = False
   \<and> reply post6 \<noteq> None
   \<and> embed post7 = Some (PyDict [(''$type'', PyStr repost_view_type)])
   \<and> embed post5 = Some (PyObject [(''py_type'', PyStr repost_view_type)])
   \<and> cutoff_of sample_env_tagged (days_old (sample_params False False))
       = Inr 63842256000000000
   \<and> dateutil_isoparse sample_env_tagged (indexed_at post4)
       = Inr \<lparr>wall = 63842257800000000, utcoffset = None\<rparr>
   \<and> matched_posts 5 sample_env_tagged (sample_params False False)
       = [(uri post5, post5, 63822418200000000), (uri post4, post4, 63842254200000000)]
   \<and> map_option (\<lambda>run. (settled_keys (fst run), snd run))
         (process_posts 5 sample_env_tagged (sample_params False False))
       = Some ([''k5'', ''k4''],
               Inr \<lparr>scanned = 50, matched = 2, deleted = 2, failed = 0\<rparr>)"
  by code_simp

subsection \<open>The backup file handle\<close>

lemma still_open_append:
  "still_open f b (xs @ ys) = still_open f (still_open f b xs) ys"
  by (induction f b xs rule: still_open.induct) simp_all

lemma still_open_unchanged:
  "list_all (\<lambda>ev. \<not> file_op (op_of ev)) evs \<Longrightarrow> still_open f b evs = b"
  by (induction f b evs rule: still_open.induct) simp_all

lemma files_closed_on_return:
  assumes "process_posts fuel e a = Some (tr, Inr r)"
  shows "\<not> still_open BackupFh False tr \<and> \<not> still_open LogFh False tr"
  using assms
proof (cases rule: process_posts_cases)
  case (scan_raised err)
  then show ?thesis by simp
next
  case (scanned evs posts bar evs')
  have "list_all (\<lambda>ev. \<not> file_op (op_of ev)) evs"
    using scan_phase_events [OF scanned(1)] by (simp add: list_all_iff scan_op_not_file_op)
  then have scan: "still_open g False evs = False" for g
    by (simp add: still_open_unchanged)
  from scanned(2) have "\<not> still_open BackupFh False evs' \<and> \<not> still_open LogFh False evs'"
  proof (cases rule: output_phase_cases)
    case nothing
    then show ?thesis by simp
  next
    case (backup_open_failed path err)
    then show ?thesis by simp
  next
    case (log_open_failed bpath lpath err)
    then show ?thesis by simp
  next
    case (log_close_failed bpath lpath t' evs'' r' err)
    then show ?thesis by simp
  next
    case (loop_failed bpath lpath t' evs'' err)
    then show ?thesis by simp
  next
    case (backup_close_failed bpath lpath t' evs'' d f err)
    with still_open_unchanged [OF process_loop_no_file_ops [OF backup_close_failed(3)]]
    show ?thesis by (simp add: still_open_append)
  next
    case (completed bpath lpath t' evs'' d f)
    with still_open_unchanged [OF process_loop_no_file_ops [OF completed(2)]]
    show ?thesis by (simp add: still_open_append)
  qed
  with scan scanned(3) show ?thesis by (simp add: still_open_append)
qed

text \<open>
  C7 says that the backup file is closed on every way out of \<^verbatim>\<open>process_posts\<close>. It
  is closed whenever a result is returned, also after failed deletions
  (\<open>files_closed_on_return\<close>). But the code closes it by the statement after the
  \<^verbatim>\<open>with\<close> block only: when the first write to the log file raises, the log file is
  closed by its \<^verbatim>\<open>with\<close> and the exception leaves \<^verbatim>\<open>process_posts\<close> with the
  backup file still open.
\<close>

theorem backup_file_left_open_on_write_error:
  "process_posts 5 (sample_env [(5, OSError)]) (sample_params False False)
     = Some (sample_trace_abort, Inl OSError)
   \<and> still_open BackupFh False sample_trace_abort
   \<and> \<not> still_open LogFh False sample_trace_abort"
  by code_simp

subsection \<open>The scanned counter\<close>

lemma scanned_counts_pages_unless_quiet:
  assumes "process_posts fuel e a = Some (tr, Inr r)"
  shows "scanned r = (if quiet a then 0 else length (filter page_fetched tr) * 50)"
  using assms
proof (cases rule: process_posts_cases)
  case (scan_raised err)
  then show ?thesis by simp
next
  case (scanned evs posts bar evs')
  have "filter page_fetched evs' = []"
    using output_phase_output_only [OF scanned(2)]
  proof (induction evs')
    case Nil
    show ?case by simp
  next
    case (Cons ev evs')
    then have "output_op (op_of ev)" and "filter page_fetched evs' = []" by simp_all
    moreover from \<open>output_op (op_of ev)\<close> have "\<not> page_fetched ev"
      by (cases ev; cases "op_of ev") auto
    ultimately show ?case by simp
  qed
  with scan_phase_bar [OF scanned(1)] output_phase_scanned [OF scanned(2)] scanned(3)
  show ?thesis by simp
qed

text \<open>
  C9 says that \<open>scanned\<close> is 50 times the number of pages fetched on every run that
  returns a result. This holds for a run that is not quiet
  (\<open>scanned_counts_pages_unless_quiet\<close>). The number is read from the progress bar of
  the page loop, and a disabled bar does not count: the quiet preview run over the two
  sample pages returns \<open>scanned = 0\<close>.
\<close>

theorem quiet_run_reports_no_scanned_posts:
  "process_posts 5 (sample_env []) (sample_params True True)
     = Some (sample_trace_preview,
             Inr \<lparr>scanned = 0, matched = 2, deleted = 0, failed = 0\<rparr>)
   \<and> length (filter page_fetched sample_trace_preview) = 2"
  by code_simp

subsection \<open>The app password\<close>

text \<open>
  C8 says that the value of \<^verbatim>\<open>BYESKY_TOKEN\<close> is used for the login when both it and
  \<^verbatim>\<open>--token\<close> are given. The code reads the variable only when the flag is missing or
  empty: with the flag \<^verbatim>\<open>flagpw\<close> and the variable \<^verbatim>\<open>envpw\<close> the password is
  \<^verbatim>\<open>flagpw\<close>, and the login request of the run carries it.
\<close>

theorem token_flag_used_despite_environment:
  "resolve_token (Some ''flagpw'') [''BYESKY_TOKEN'' \<mapsto> ''envpw''] typed = ''flagpw''
   \<and> map_option (\<lambda>run. hd (fst run))
         (cli 5 (sample_env []) [''BYESKY_TOKEN'' \<mapsto> ''envpw''] typed (Some ''flagpw'')
            (sample_params True False))
       = Some (Done (ClientLogin ''me.bsky.social'' ''flagpw''))"
proof -
  have tok: "resolve_token (Some ''flagpw'') [''BYESKY_TOKEN'' \<mapsto> ''envpw''] typed = ''flagpw''"
    by (simp add: resolve_token_def str_truthy_def)
  have "map_option (\<lambda>run. hd (fst run))
          (process_posts 5 (sample_env []) ((sample_params True False)\<lparr>token := ''flagpw''\<rparr>))
        = Some (Done (ClientLogin ''me.bsky.social'' ''flagpw''))"
    by code_simp
  with tok show ?thesis
    by (auto simp: cli_def split: option.splits prod.splits sum.splits)
qed

end
